theory Spec2Isabelle
  imports Main
begin

section \<open>Text\<close>

text \<open>
  The watcher works on Python \<open>str\<close> values. A text is modelled as a \<^typ>\<open>string\<close>, each
  \<^typ>\<open>char\<close> read as one code point below 256. On that range \<open>str.isspace\<close>, which decides
  what \<open>strip\<close>, \<open>lstrip\<close> and the pattern \<open>\s\<close> remove, holds for the code points 9 to 13,
  28 to 32, 133 and 160, and case-insensitive matching of \<open>json\<close> accepts exactly the two cases
  of each of its four letters.
\<close>

definition isspace :: "char \<Rightarrow> bool" where
  "isspace ch = (ch \<in> set [CHR 0x09, CHR 0x0A, CHR 0x0B, CHR 0x0C, CHR 0x0D,
                            CHR 0x1C, CHR 0x1D, CHR 0x1E, CHR 0x1F, CHR 0x20,
                            CHR 0x85, CHR 0xA0])"

definition lstrip :: "string \<Rightarrow> string" where
  "lstrip s = dropWhile isspace s"

definition rstrip :: "string \<Rightarrow> string" where
  "rstrip s = rev (dropWhile isspace (rev s))"

definition strip :: "string \<Rightarrow> string" where
  "strip s = rstrip (lstrip s)"

text \<open>\<open>text[a:b]\<close> for indices \<open>0 \<le> a\<close> and \<open>0 \<le> b\<close>.\<close>

definition slice :: "string \<Rightarrow> nat \<Rightarrow> nat \<Rightarrow> string" where
  "slice s a b = take (b - a) (drop a s)"

text \<open>\<open>text.find(ch)\<close> for a one-character \<open>ch\<close>; the result \<open>-1\<close> is \<^const>\<open>None\<close>.\<close>

fun find_char :: "string \<Rightarrow> char \<Rightarrow> nat option" where
  "find_char [] ch = None"
| "find_char (x # xs) ch =
     (if x = ch then Some 0 else map_option Suc (find_char xs ch))"

text \<open>
  Python's \<open>a or b\<close> on the results of the extractor: \<open>a\<close> unless it is \<open>None\<close> or the empty
  string.
\<close>

definition py_or :: "string option \<Rightarrow> string option \<Rightarrow> string option" where
  "py_or a b = (case a of None \<Rightarrow> b | Some s \<Rightarrow> if s = [] then b else Some s)"


section \<open>Response sanitizer: \<open>strip_code_fences\<close>\<close>

text \<open>
  \<open>re.search(r"```(?:json)?\s*([\s\S]*?)```", text, re.IGNORECASE)\<close> is written out as the
  backtracking search it is. \<open>fence_close\<close> is the lazy group followed by the closing fence:
  the shortest run of characters after which three backticks stand. \<open>fence_space\<close> is the greedy
  \<open>\s*\<close>: take a whitespace character when there is one and come back to the shorter run only if
  the rest fails. \<open>fence_here\<close> is one attempt at a fixed position, the optional tag tried
  first, and \<open>fence_search\<close> moves the attempt from left to right. The result is group 1 of
  the leftmost match.
\<close>

definition backticks :: string where
  "backticks = [CHR 0x60, CHR 0x60, CHR 0x60]"

fun fence_close :: "string \<Rightarrow> string option" where
  "fence_close [] = None"
| "fence_close (ch # rest) =
     (if take 3 (ch # rest) = backticks then Some []
      else map_option ((#) ch) (fence_close rest))"

fun fence_space :: "string \<Rightarrow> string option" where
  "fence_space [] = fence_close []"
| "fence_space (ch # rest) =
     (if isspace ch then
        (case fence_space rest of Some g \<Rightarrow> Some g | None \<Rightarrow> fence_close (ch # rest))
      else fence_close (ch # rest))"

definition json_tag :: "string \<Rightarrow> bool" where
  "json_tag s =
     (case s of
        c1 # c2 # c3 # c4 # _ \<Rightarrow>
          (c1 = CHR ''j'' \<or> c1 = CHR ''J'') \<and> (c2 = CHR ''s'' \<or> c2 = CHR ''S'') \<and>
          (c3 = CHR ''o'' \<or> c3 = CHR ''O'') \<and> (c4 = CHR ''n'' \<or> c4 = CHR ''N'')
      | _ \<Rightarrow> False)"

definition fence_here :: "string \<Rightarrow> string option" where
  "fence_here s =
     (if take 3 s = backticks then
        (let r = drop 3 s in
         case (if json_tag r then fence_space (drop 4 r) else None) of
           Some g \<Rightarrow> Some g
         | None \<Rightarrow> fence_space r)
      else None)"

fun fence_search :: "string \<Rightarrow> string option" where
  "fence_search [] = fence_here []"
| "fence_search (ch # rest) =
     (case fence_here (ch # rest) of Some g \<Rightarrow> Some g | None \<Rightarrow> fence_search rest)"

definition strip_code_fences :: "string \<Rightarrow> string" where
  "strip_code_fences text =
     (case fence_search text of Some g \<Rightarrow> strip g | None \<Rightarrow> text)"


section \<open>JSON block extractor: \<open>extract_balanced_block\<close> and \<open>extract_first_json\<close>\<close>

text \<open>
  The loop \<open>for i, ch in enumerate(text[start:], start)\<close> with its four variables. The
  function returns the index \<open>i\<close> at which the source returns, \<^const>\<open>None\<close> when the loop
  runs off the end of the text. \<open>open_ch\<close> and \<open>close_ch\<close> are one-character strings, as at
  both call sites.
\<close>

fun scan_loop :: "char \<Rightarrow> char \<Rightarrow> int \<Rightarrow> bool \<Rightarrow> bool \<Rightarrow> char option \<Rightarrow> nat \<Rightarrow> string
    \<Rightarrow> nat option" where
  "scan_loop open_ch close_ch depth in_str esc quote i [] = None"
| "scan_loop open_ch close_ch depth in_str esc quote i (ch # rest) =
     (if in_str then
        (if esc then scan_loop open_ch close_ch depth in_str False quote (i + 1) rest
         else if ch = CHR 0x5C then scan_loop open_ch close_ch depth in_str True quote (i + 1) rest
         else if Some ch = quote then
           scan_loop open_ch close_ch depth False esc quote (i + 1) rest
         else scan_loop open_ch close_ch depth in_str esc quote (i + 1) rest)
      else
        (if ch = CHR 0x22 \<or> ch = CHR 0x27 then
           scan_loop open_ch close_ch depth True esc (Some ch) (i + 1) rest
         else if ch = open_ch then
           scan_loop open_ch close_ch (depth + 1) in_str esc quote (i + 1) rest
         else if ch = close_ch then
           (if depth - 1 = 0 then Some i
            else scan_loop open_ch close_ch (depth - 1) in_str esc quote (i + 1) rest)
         else scan_loop open_ch close_ch depth in_str esc quote (i + 1) rest))"

definition extract_balanced_block :: "string \<Rightarrow> char \<Rightarrow> char \<Rightarrow> string option" where
  "extract_balanced_block text open_ch close_ch =
     (case find_char text open_ch of
        None \<Rightarrow> None
      | Some start \<Rightarrow>
          (case scan_loop open_ch close_ch 0 False False None start (drop start text) of
             None \<Rightarrow> None
           | Some i \<Rightarrow> Some (slice text start (i + 1))))"

definition extract_first_json :: "string \<Rightarrow> string option" where
  "extract_first_json text =
     (let cleaned = lstrip (strip_code_fences text) in
      py_or (extract_balanced_block cleaned (CHR ''['') (CHR '']''))
            (extract_balanced_block cleaned (CHR ''{'') (CHR ''}'')))"


subsection \<open>The scanner's state along a text\<close>

text \<open>
  What one pass of the loop body does to \<open>(depth, in_str, esc, quote)\<close>, the return left
  aside, and the state reached after a whole text from the initial \<open>(0, False, False, None)\<close>.
  The depth \<open>returns to zero\<close> at position \<open>n\<close> when it is not zero before character \<open>n\<close> and
  zero after it.
\<close>

type_synonym scan_state = "int \<times> bool \<times> bool \<times> char option"

fun advance :: "char \<Rightarrow> char \<Rightarrow> scan_state \<Rightarrow> char \<Rightarrow> scan_state" where
  "advance open_ch close_ch (depth, in_str, esc, quote) ch =
     (if in_str then
        (if esc then (depth, in_str, False, quote)
         else if ch = CHR 0x5C then (depth, in_str, True, quote)
         else if Some ch = quote then (depth, False, esc, quote)
         else (depth, in_str, esc, quote))
      else
        (if ch = CHR 0x22 \<or> ch = CHR 0x27 then (depth, True, esc, Some ch)
         else if ch = open_ch then (depth + 1, in_str, esc, quote)
         else if ch = close_ch then (depth - 1, in_str, esc, quote)
         else (depth, in_str, esc, quote)))"

definition run :: "char \<Rightarrow> char \<Rightarrow> string \<Rightarrow> scan_state" where
  "run open_ch close_ch s = foldl (advance open_ch close_ch) (0, False, False, None) s"

definition depth_after :: "char \<Rightarrow> char \<Rightarrow> string \<Rightarrow> int" where
  "depth_after open_ch close_ch s = fst (run open_ch close_ch s)"

definition in_str_after :: "char \<Rightarrow> char \<Rightarrow> string \<Rightarrow> bool" where
  "in_str_after open_ch close_ch s = fst (snd (run open_ch close_ch s))"

definition returns_to_zero :: "char \<Rightarrow> char \<Rightarrow> string \<Rightarrow> nat \<Rightarrow> bool" where
  "returns_to_zero open_ch close_ch s n =
     (n < length s \<and> depth_after open_ch close_ch (take n s) \<noteq> 0 \<and>
      depth_after open_ch close_ch (take (Suc n) s) = 0)"

text \<open>The text from its first \<open>open_ch\<close> on, empty when there is none.\<close>

definition from_first :: "char \<Rightarrow> string \<Rightarrow> string" where
  "from_first open_ch text = dropWhile (\<lambda>ch. ch \<noteq> open_ch) text"

text \<open>
  A balanced block for a bracket pair: it begins with the opening bracket, the depth is positive
  after every proper part of it that is not empty, and zero after the whole.
\<close>

definition balanced_block :: "char \<Rightarrow> char \<Rightarrow> string \<Rightarrow> bool" where
  "balanced_block open_ch close_ch s =
     (1 < length s \<and> hd s = open_ch \<and> depth_after open_ch close_ch s = 0 \<and>
      (\<forall>k. 0 < k \<and> k < length s \<longrightarrow> 0 < depth_after open_ch close_ch (take k s)))"


subsection \<open>Well-formed JSON texts\<close>

text \<open>
  The grammar of RFC 8259, as predicates on texts: insignificant whitespace, the characters
  between the quotes of a string, numbers, and values with their arrays and objects.
\<close>

definition json_ws :: "string \<Rightarrow> bool" where
  "json_ws s = (set s \<subseteq> {CHR 0x20, CHR 0x09, CHR 0x0A, CHR 0x0D})"

definition digits :: "string \<Rightarrow> bool" where
  "digits s = (s \<noteq> [] \<and> set s \<subseteq> set ''0123456789'')"

definition hex_digit :: "char \<Rightarrow> bool" where
  "hex_digit ch = (ch \<in> set ''0123456789abcdefABCDEF'')"

inductive json_chars :: "string \<Rightarrow> bool" where
  chars_end: "json_chars []"
| chars_plain: "ch \<noteq> CHR 0x22 \<Longrightarrow> ch \<noteq> CHR 0x5C \<Longrightarrow> 32 \<le> (of_char ch :: nat) \<Longrightarrow> json_chars s
    \<Longrightarrow> json_chars (ch # s)"
| chars_escape: "ch \<in> {CHR 0x22, CHR 0x5C, CHR ''/'', CHR ''b'', CHR ''f'', CHR ''n'', CHR ''r'', CHR ''t''}
    \<Longrightarrow> json_chars s \<Longrightarrow> json_chars (CHR 0x5C # ch # s)"
| chars_unicode: "hex_digit h1 \<Longrightarrow> hex_digit h2 \<Longrightarrow> hex_digit h3 \<Longrightarrow> hex_digit h4 \<Longrightarrow> json_chars s
    \<Longrightarrow> json_chars (CHR 0x5C # CHR ''u'' # h1 # h2 # h3 # h4 # s)"

definition json_string :: "string \<Rightarrow> bool" where
  "json_string s = (\<exists>b. json_chars b \<and> s = CHR 0x22 # b @ [CHR 0x22])"

definition json_number :: "string \<Rightarrow> bool" where
  "json_number s =
     (\<exists>sign whole frac ex.
        s = sign @ whole @ frac @ ex \<and>
        (sign = [] \<or> sign = ''-'') \<and>
        (whole = ''0'' \<or> (digits whole \<and> hd whole \<noteq> CHR ''0'')) \<and>
        (frac = [] \<or> (\<exists>ds. digits ds \<and> frac = CHR ''.'' # ds)) \<and>
        (ex = [] \<or> (\<exists>e sg ds. (e = CHR ''e'' \<or> e = CHR ''E'') \<and>
                                (sg = [] \<or> sg = ''+'' \<or> sg = ''-'') \<and> digits ds \<and>
                                ex = e # sg @ ds)))"

inductive json_value :: "string \<Rightarrow> bool"
  and json_array :: "string \<Rightarrow> bool"
  and json_object :: "string \<Rightarrow> bool"
  and json_elements :: "string \<Rightarrow> bool"
  and json_members :: "string \<Rightarrow> bool" where
  value_null: "json_value ''null''"
| value_true: "json_value ''true''"
| value_false: "json_value ''false''"
| value_number: "json_number s \<Longrightarrow> json_value s"
| value_string: "json_string s \<Longrightarrow> json_value s"
| value_array: "json_array s \<Longrightarrow> json_value s"
| value_object: "json_object s \<Longrightarrow> json_value s"
| array_empty: "json_ws w \<Longrightarrow> json_array (CHR ''['' # w @ '']'')"
| array_elements: "json_elements es \<Longrightarrow> json_array (CHR ''['' # es @ '']'')"
| object_empty: "json_ws w \<Longrightarrow> json_object (CHR ''{'' # w @ ''}'')"
| object_members: "json_members ms \<Longrightarrow> json_object (CHR ''{'' # ms @ ''}'')"
| elements_last: "json_ws w1 \<Longrightarrow> json_value v \<Longrightarrow> json_ws w2 \<Longrightarrow> json_elements (w1 @ v @ w2)"
| elements_more: "json_ws w1 \<Longrightarrow> json_value v \<Longrightarrow> json_ws w2 \<Longrightarrow> json_elements es
    \<Longrightarrow> json_elements (w1 @ v @ w2 @ CHR '','' # es)"
| members_last: "json_ws w1 \<Longrightarrow> json_string k \<Longrightarrow> json_ws w2 \<Longrightarrow> json_ws w3 \<Longrightarrow> json_value v
    \<Longrightarrow> json_ws w4 \<Longrightarrow> json_members (w1 @ k @ w2 @ CHR '':'' # w3 @ v @ w4)"
| members_more: "json_ws w1 \<Longrightarrow> json_string k \<Longrightarrow> json_ws w2 \<Longrightarrow> json_ws w3 \<Longrightarrow> json_value v
    \<Longrightarrow> json_ws w4 \<Longrightarrow> json_members ms
    \<Longrightarrow> json_members (w1 @ k @ w2 @ CHR '':'' # w3 @ v @ w4 @ CHR '','' # ms)"


subsection \<open>Texts the scanner passes over\<close>

text \<open>
  \<open>stays_above\<close> says that the depth is at least \<open>d\<close> after every character of a text read from
  a given state. A text is neutral for a bracket pair when the scanner, entering it outside a
  string at any depth, never falls below that depth inside it and leaves it outside a string at
  the same depth. The two bracket pairs are those of the call sites.
\<close>

fun stays_above :: "char \<Rightarrow> char \<Rightarrow> int \<Rightarrow> scan_state \<Rightarrow> string \<Rightarrow> bool" where
  "stays_above open_ch close_ch d st [] = True"
| "stays_above open_ch close_ch d st (ch # rest) =
     (d \<le> fst (advance open_ch close_ch st ch) \<and>
      stays_above open_ch close_ch d (advance open_ch close_ch st ch) rest)"

definition depth_neutral :: "char \<Rightarrow> char \<Rightarrow> string \<Rightarrow> bool" where
  "depth_neutral open_ch close_ch s =
     (\<forall>d q. (\<exists>q'. foldl (advance open_ch close_ch) (d, False, False, q) s = (d, False, False, q')) \<and>
            stays_above open_ch close_ch d (d, False, False, q) s)"

definition bracket_pair :: "char \<Rightarrow> char \<Rightarrow> bool" where
  "bracket_pair open_ch close_ch =
     ((open_ch = CHR ''['' \<and> close_ch = CHR '']'') \<or> (open_ch = CHR ''{'' \<and> close_ch = CHR ''}''))"


section \<open>Values, records and the collaborators\<close>

text \<open>
  What \<open>json.loads\<close> returns: \<open>None\<close>, a \<open>bool\<close>, an \<open>int\<close>, a \<open>float\<close>, a \<open>str\<close>, a \<open>list\<close> or a
  \<open>dict\<close> with string keys. Floats are not interpreted: \<open>'f\<close> stands for them, here and in the
  \<open>timestamp\<close> that \<open>time.time()\<close> supplies.
\<close>

datatype 'f pyval =
    PyNone
  | PyBool bool
  | PyInt int
  | PyFloat 'f
  | PyStr string
  | PyList "'f pyval list"
  | PyDict "(string \<times> 'f pyval) list"

datatype py_exn =
    JSONDecodeError
  | RecursionError
  | RequestException
  | AttributeError
  | PyMongoError
  | UnboundLocalError

text \<open>\<open>d.get(key, default)\<close> on a \<open>dict\<close>.\<close>

definition dict_get :: "(string \<times> 'f pyval) list \<Rightarrow> string \<Rightarrow> 'f pyval \<Rightarrow> 'f pyval" where
  "dict_get d key dflt = (case map_of d key of None \<Rightarrow> dflt | Some v \<Rightarrow> v)"

text \<open>The document handed to \<open>collection.insert_one\<close>.\<close>

record 'f document =
  filename :: string
  title :: "'f pyval"
  summary :: "'f pyval"
  tags :: "'f pyval"
  original :: "'f pyval"
  timestamp :: 'f

text \<open>
  The collaborators are parameters of the model. \<open>requests_post\<close> is the text-generation backend behind
  \<open>requests.post\<close>, \<open>raise_for_status\<close> and \<open>resp.json().get("response")\<close>: given the calls made
  so far and the prompt of the payload it raises or yields the \<open>response\<close> field, \<^const>\<open>None\<close>
  when the field is absent or null. \<open>json_loads\<close> is the parser of the \<open>json\<close> library.
  \<open>insert_one\<close> is the storage collaborator: given the inserts attempted so far and the
  document, it raises or accepts. \<open>time_time\<close> is the clock, by the number of earlier readings.
\<close>

record 'f env =
  requests_post :: "(bool \<times> string) list \<Rightarrow> string \<Rightarrow> py_exn + string option"
  json_loads :: "string \<Rightarrow> py_exn + 'f pyval"
  insert_one :: "'f document list \<Rightarrow> 'f document \<Rightarrow> py_exn option"
  time_time :: "nat \<Rightarrow> 'f"

text \<open>
  What a run leaves behind: every call of the Model Client (its mode and the prompt sent), every
  document passed to \<open>insert_one\<close>, the documents the collection \<open>db.notes\<close> accepted, and the
  number of clock readings.
\<close>

record 'f world =
  model_calls :: "(bool \<times> string) list"
  inserts :: "'f document list"
  collection :: "'f document list"
  clock :: nat


section \<open>Core processing: \<open>process_text\<close>\<close>

definition prompt_text :: "string \<Rightarrow> string" where
  \<open>prompt_text text =
     ''Split the following text into sections by topic.'' @ [CHR 0x0A] @
     ''Return a JSON array of objects with fields: '' @
     ''title (string), summary (string), tags (array of strings), content (string).'' @ [CHR 0x0A] @
     ''If a value is missing, use an empty string or empty array.'' @ [CHR 0x0A, CHR 0x0A] @
     ''TEXT:'' @ [CHR 0x0A] @ text\<close>

text \<open>\<open>json.dumps(schema)\<close>.\<close>

definition schema_json :: string where
  \<open>schema_json =
     ''{"type": "array", "items": {"type": "object", "properties": {'' @
     ''"title": {"type": "string"}, "summary": {"type": "string"}, '' @
     ''"tags": {"type": "array", "items": {"type": "string"}}, '' @
     ''"content": {"type": "string"}}, '' @
     ''"required": ["title", "summary", "tags", "content"], '' @
     ''"additionalProperties": false}}''\<close>

definition fix_prompt :: "string \<Rightarrow> string" where
  \<open>fix_prompt prompt =
     ''Fix the following so it becomes valid JSON matching this schema exactly. '' @
     ''Output JSON only, no explanations.'' @ [CHR 0x0A, CHR 0x0A] @
     ''SCHEMA:'' @ [CHR 0x0A] @ schema_json @ [CHR 0x0A, CHR 0x0A] @
     ''DATA:'' @ [CHR 0x0A] @ prompt\<close>

text \<open>
  \<open>call_model\<close>: one request to the backend. An exception of the request leaves through
  \<^const>\<open>Inl\<close>; otherwise the result is \<open>(response or "").strip()\<close>.
\<close>

definition call_model :: "'f env \<Rightarrow> string \<Rightarrow> bool \<Rightarrow> 'f world \<Rightarrow> (py_exn + string) \<times> 'f world" where
  "call_model env prompt fix_mode w =
     (let payload_prompt = (if fix_mode then fix_prompt prompt else prompt);
          w' = w\<lparr>model_calls := model_calls w @ [(fix_mode, payload_prompt)]\<rparr>
      in case requests_post env (model_calls w) payload_prompt of
           Inl e \<Rightarrow> (Inl e, w')
         | Inr response \<Rightarrow>
             (Inr (strip (case response of None \<Rightarrow> [] | Some s \<Rightarrow> s)), w'))"

text \<open>\<open>candidate = extract_first_json(raw) or raw.strip()\<close>.\<close>

definition candidate_of :: "string \<Rightarrow> string" where
  "candidate_of raw =
     (case extract_first_json raw of
        None \<Rightarrow> strip raw
      | Some s \<Rightarrow> if s = [] then strip raw else s)"

text \<open>
  The retry loop \<open>for attempt in range(max_retries + 1)\<close>, over the attempts still to come. It
  ends by \<open>break\<close> with the sections, by \<open>return\<close> after the last failure, by an exception, or by
  running out of attempts, which happens only when the range is empty.
\<close>

datatype 'f loop_exit =
    Break "'f pyval list"
  | Return
  | Raise py_exn
  | Exhausted

fun retry_loop :: "'f env \<Rightarrow> int \<Rightarrow> int list \<Rightarrow> string \<Rightarrow> 'f world \<Rightarrow> 'f loop_exit \<times> 'f world" where
  "retry_loop env max_retries [] raw w = (Exhausted, w)"
| "retry_loop env max_retries (attempt # attempts) raw w =
     (let candidate = candidate_of raw in
      case json_loads env candidate of
        Inr sections \<Rightarrow>
          (Break (case sections of PyList xs \<Rightarrow> xs | _ \<Rightarrow> [sections]), w)
      | Inl e \<Rightarrow>
          if e = JSONDecodeError then
            (if attempt < max_retries then
               (case call_model env candidate True w of
                  (Inl e', w') \<Rightarrow> (Raise e', w')
                | (Inr raw', w') \<Rightarrow> retry_loop env max_retries attempts raw' w')
             else (Return, w))
          else (Raise e, w))"

text \<open>The dictionary built for one section that is a \<open>dict\<close>.\<close>

definition new_record :: "string \<Rightarrow> (string \<times> 'f pyval) list \<Rightarrow> 'f \<Rightarrow> 'f document" where
  "new_record name section now =
     \<lparr>filename = name,
      title = dict_get section ''title'' (PyStr []),
      summary = dict_get section ''summary'' (PyStr []),
      tags = dict_get section ''tags'' (PyList []),
      original = dict_get section ''content'' (PyStr []),
      timestamp = now\<rparr>"

text \<open>
  The loop \<open>for section in sections: collection.insert_one({...})\<close>. A section that is not a
  \<open>dict\<close> has no \<open>get\<close>: the first \<open>section.get\<close> raises \<open>AttributeError\<close> before the clock is
  read. An exception of \<open>insert_one\<close> leaves the loop.
\<close>

fun insert_sections :: "'f env \<Rightarrow> string \<Rightarrow> 'f pyval list \<Rightarrow> 'f world \<Rightarrow> py_exn option \<times> 'f world" where
  "insert_sections env name [] w = (None, w)"
| "insert_sections env name (section # rest) w =
     (case section of
        PyDict d \<Rightarrow>
          (let doc = new_record name d (time_time env (clock w));
               w1 = w\<lparr>clock := Suc (clock w), inserts := inserts w @ [doc]\<rparr>
           in case insert_one env (inserts w) doc of
                Some e \<Rightarrow> (Some e, w1)
              | None \<Rightarrow> insert_sections env name rest (w1\<lparr>collection := collection w1 @ [doc]\<rparr>))
      | _ \<Rightarrow> (Some AttributeError, w))"

text \<open>
  How \<open>process_text\<close> ends: the final \<open>[INFO]\<close> line with the number of sections, the \<open>return\<close>
  after the \<open>[ERROR]\<close> lines, or an exception that reaches the caller.
\<close>

datatype outcome =
    Processed nat
  | Failed
  | Raised py_exn

definition materialize :: "'f env \<Rightarrow> string \<Rightarrow> 'f loop_exit \<times> 'f world \<Rightarrow> outcome \<times> 'f world" where
  "materialize env name lw =
     (case lw of
        (Raise e, w) \<Rightarrow> (Raised e, w)
      | (Return, w) \<Rightarrow> (Failed, w)
      | (Exhausted, w) \<Rightarrow> (Raised UnboundLocalError, w)
      | (Break sections, w) \<Rightarrow>
          (case insert_sections env name sections w of
             (Some e, w') \<Rightarrow> (Raised e, w')
           | (None, w') \<Rightarrow> (Processed (length sections), w')))"

definition process_text :: "'f env \<Rightarrow> string \<Rightarrow> string \<Rightarrow> int \<Rightarrow> 'f world \<Rightarrow> outcome \<times> 'f world" where
  "process_text env text name max_retries w =
     (case call_model env (prompt_text text) False w of
        (Inl e, w1) \<Rightarrow> (Raised e, w1)
      | (Inr raw, w1) \<Rightarrow>
          materialize env name (retry_loop env max_retries [0..max_retries] raw w1))"



text \<open>
  The documents the loop builds for sections that are all dictionaries, the clock read \<open>c\<close> times
  before.
\<close>

fun records_of :: "'f env \<Rightarrow> string \<Rightarrow> nat \<Rightarrow> 'f pyval list \<Rightarrow> 'f document list" where
  "records_of env name c [] = []"
| "records_of env name c (section # rest) =
     (case section of
        PyDict d \<Rightarrow> new_record name d (time_time env c) # records_of env name (Suc c) rest
      | _ \<Rightarrow> [])"

definition is_dict :: "'f pyval \<Rightarrow> bool" where
  "is_dict v = (case v of PyDict d \<Rightarrow> True | _ \<Rightarrow> False)"


subsection \<open>Scripted collaborators\<close>

text \<open>
  A backend that answers its successive calls from a list, repeating the last answer once the
  list is used up and failing when the list is empty; a parser given by a finite table of the
  texts it accepts; a store that refuses the inserts whose position is listed; and a clock that
  counts.
\<close>

definition scripted :: "string list \<Rightarrow> (string \<times> nat pyval) list \<Rightarrow> nat list \<Rightarrow> nat env" where
  "scripted replies table refused =
     \<lparr>requests_post = (\<lambda>calls prompt.
         if replies = [] then Inl RequestException
         else Inr (Some (if length calls < length replies then replies ! length calls
                         else last replies))),
      json_loads = (\<lambda>s. case map_of table s of Some v \<Rightarrow> Inr v | None \<Rightarrow> Inl JSONDecodeError),
      insert_one = (\<lambda>attempted doc.
         if length attempted \<in> set refused then Some PyMongoError else None),
      time_time = (\<lambda>n. n)\<rparr>"

definition fresh :: "nat world" where
  "fresh = \<lparr>model_calls = [], inserts = [], collection = [], clock = 0\<rparr>"


section \<open>The sanitizer is idempotent\<close>

lemma fence_close_shortest:
  "fence_close s = Some g \<Longrightarrow> (\<exists>b. s = g @ backticks @ b) \<and> (\<forall>k < length g. take 3 (drop k s) \<noteq> backticks)"
proof (induction s arbitrary: g)
  case Nil
  then show ?case by simp
next
  case (Cons ch rest)
  show ?case
  proof (cases "take 3 (ch # rest) = backticks")
    case True
    with Cons.prems have "g = []" by simp
    moreover have "ch # rest = take 3 (ch # rest) @ drop 3 (ch # rest)"
      by (rule append_take_drop_id [symmetric])
    ultimately show ?thesis using True by (metis append_Nil length_0_conv not_less_zero list.size(3))
  next
    case False
    with Cons.prems obtain g' where g': "fence_close rest = Some g'" "g = ch # g'"
      by auto
    from Cons.IH[OF g'(1)] obtain b where b: "rest = g' @ backticks @ b"
      and short: "\<forall>k < length g'. take 3 (drop k rest) \<noteq> backticks" by blast
    have "\<forall>k < length g. take 3 (drop k (ch # rest)) \<noteq> backticks"
    proof (intro allI impI)
      fix k assume "k < length g"
      then show "take 3 (drop k (ch # rest)) \<noteq> backticks"
        using False short g'(2) by (cases k) auto
    qed
    with b g'(2) show ?thesis by auto
  qed
qed

lemma fence_close_free:
  assumes "fence_close s = Some g"
  shows "take 3 (drop k g) \<noteq> backticks"
proof
  assume eq: "take 3 (drop k g) = backticks"
  from fence_close_shortest[OF assms] obtain b where b: "s = g @ backticks @ b"
    and short: "\<forall>k < length g. take 3 (drop k s) \<noteq> backticks" by blast
  from eq have "length (take 3 (drop k g)) = 3" by (simp add: backticks_def)
  then have len: "k + 3 \<le> length g" by simp
  then have "take 3 (drop k s) = take 3 (drop k g)" using b by simp
  with eq short len show False by auto
qed


lemma fence_space_free: "fence_space s = Some g \<Longrightarrow> take 3 (drop k g) \<noteq> backticks"
proof (induction s arbitrary: g)
  case Nil
  then show ?case by simp
next
  case (Cons ch rest)
  show ?case
  proof (cases "isspace ch \<and> fence_space rest \<noteq> None")
    case True
    then obtain g' where g': "fence_space rest = Some g'" by auto
    with True Cons.prems have "g = g'" by simp
    with Cons.IH[OF g'] show ?thesis by simp
  next
    case False
    with Cons.prems have "fence_close (ch # rest) = Some g"
      by (auto simp del: fence_close.simps split: if_splits option.splits)
    then show ?thesis by (rule fence_close_free)
  qed
qed

lemma fence_here_free: "fence_here s = Some g \<Longrightarrow> take 3 (drop k g) \<noteq> backticks"
  by (auto simp: fence_here_def Let_def split: if_splits option.splits dest: fence_space_free)

lemma fence_search_free: "fence_search s = Some g \<Longrightarrow> take 3 (drop k g) \<noteq> backticks"
  by (induction s) (auto split: option.splits dest: fence_here_free)

lemma fence_search_None: "(\<forall>k. take 3 (drop k s) \<noteq> backticks) \<Longrightarrow> fence_search s = None"
proof (induction s)
  case Nil
  then show ?case by (simp add: fence_here_def backticks_def)
next
  case (Cons ch rest)
  have "take 3 (drop 0 (ch # rest)) \<noteq> backticks" using Cons.prems by blast
  then have here: "fence_here (ch # rest) = None" by (simp add: fence_here_def)
  have "\<forall>k. take 3 (drop k rest) \<noteq> backticks"
  proof
    fix k show "take 3 (drop k rest) \<noteq> backticks" using Cons.prems[rule_format, of "Suc k"] by simp
  qed
  with Cons.IH here show ?case by simp
qed

lemma free_append:
  assumes "\<forall>k. take 3 (drop k (a @ m @ b)) \<noteq> backticks"
  shows "take 3 (drop k m) \<noteq> backticks"
proof
  assume eq: "take 3 (drop k m) = backticks"
  then have "length (take 3 (drop k m)) = 3" by (simp add: backticks_def)
  then have "k + 3 \<le> length m" by simp
  then have "take 3 (drop (length a + k) (a @ m @ b)) = take 3 (drop k m)" by simp
  with eq assms show False by metis
qed

lemma strip_decompose: "\<exists>a b. s = a @ strip s @ b"
proof -
  have 1: "s = takeWhile isspace s @ lstrip s" by (simp add: lstrip_def)
  have "rev (rev (lstrip s)) =
      rev (takeWhile isspace (rev (lstrip s)) @ dropWhile isspace (rev (lstrip s)))"
    by (simp only: takeWhile_dropWhile_id)
  also have "\<dots> = rev (dropWhile isspace (rev (lstrip s))) @ rev (takeWhile isspace (rev (lstrip s)))"
    by (rule rev_append)
  finally have 2: "lstrip s = strip s @ rev (takeWhile isspace (rev (lstrip s)))"
    by (simp add: strip_def rstrip_def)
  from 1 2 show ?thesis by metis
qed

lemma strip_free:
  assumes "\<forall>k. take 3 (drop k g) \<noteq> backticks"
  shows "take 3 (drop k (strip g)) \<noteq> backticks"
proof -
  obtain a b where "g = a @ strip g @ b" using strip_decompose by blast
  with assms have "\<forall>k. take 3 (drop k (a @ strip g @ b)) \<noteq> backticks" by simp
  then show ?thesis by (rule free_append)
qed

text \<open>
  Claim C7. Sanitizer idempotence: for every text, stripping the code fences of an already stripped
  text changes nothing. The group that the first match captures holds no run of three backticks,
  trimmed or not, so a second search finds no fence; a text without a fence is returned as it is.
\<close>

theorem sanitizer_idempotent:
  "strip_code_fences (strip_code_fences t) = strip_code_fences t"
proof (cases "fence_search t")
  case None
  then show ?thesis by (simp add: strip_code_fences_def)
next
  case (Some g)
  have "\<forall>k. take 3 (drop k g) \<noteq> backticks" using fence_search_free[OF Some] by blast
  then have "\<forall>k. take 3 (drop k (strip g)) \<noteq> backticks" using strip_free by blast
  then have "fence_search (strip g) = None" by (rule fence_search_None)
  with Some show ?thesis by (simp add: strip_code_fences_def)
qed


section \<open>The extractor\<close>

subsection \<open>The loop against the state along the text\<close>

lemma scan_loop_Cons:
  "1 \<le> d \<Longrightarrow> scan_loop op cl d ins e q i (ch # rest) =
     (case advance op cl (d, ins, e, q) ch of
        (d', ins', e', q') \<Rightarrow> if d' = 0 then Some i else scan_loop op cl d' ins' e' q' (Suc i) rest)"
  by auto

lemma advance_depth_ge: "1 \<le> d \<Longrightarrow> 0 \<le> fst (advance op cl (d, ins, e, q) ch)"
  by auto

lemma scan_loop_Some:
  "1 \<le> fst st \<Longrightarrow>
   scan_loop op cl (fst st) (fst (snd st)) (fst (snd (snd st))) (snd (snd (snd st))) i rest = Some j \<Longrightarrow>
     i \<le> j \<and> j - i < length rest \<and>
     fst (foldl (advance op cl) st (take (Suc (j - i)) rest)) = 0 \<and>
     (\<forall>k \<le> j - i. 1 \<le> fst (foldl (advance op cl) st (take k rest)))"
proof (induction rest arbitrary: st i)
  case Nil
  then show ?case by simp
next
  case (Cons ch rest)
  obtain d ins e q where st: "st = (d, ins, e, q)" by (cases st) auto
  obtain d' ins' e' q' where adv: "advance op cl (d, ins, e, q) ch = (d', ins', e', q')"
    by (cases "advance op cl (d, ins, e, q) ch") auto
  from Cons.prems(1) st have d1: "1 \<le> d" by simp
  have d'0: "0 \<le> d'" using advance_depth_ge[OF d1, of op cl ins e q ch] adv by simp
  from Cons.prems(2)
  have eq: "(if d' = 0 then Some i else scan_loop op cl d' ins' e' q' (Suc i) rest) = Some j"
    unfolding st using scan_loop_Cons[OF d1, of op cl ins e q i ch rest] adv by simp
  show ?case
  proof (cases "d' = 0")
    case True
    with eq have "j = i" by simp
    then show ?thesis using True adv st d1 by simp
  next
    case False
    with eq have rec: "scan_loop op cl d' ins' e' q' (Suc i) rest = Some j" by simp
    from False d'0 have "1 \<le> d'" by simp
    from Cons.IH[of "(d', ins', e', q')" "Suc i"] this rec
    have ih: "Suc i \<le> j" "j - Suc i < length rest"
      "fst (foldl (advance op cl) (d', ins', e', q') (take (Suc (j - Suc i)) rest)) = 0"
      "\<forall>k \<le> j - Suc i. 1 \<le> fst (foldl (advance op cl) (d', ins', e', q') (take k rest))"
      by simp_all
    from ih(1) have ji: "j - i = Suc (j - Suc i)" by simp
    have all: "\<forall>k \<le> j - i. 1 \<le> fst (foldl (advance op cl) st (take k (ch # rest)))"
    proof (intro allI impI)
      fix k assume k: "k \<le> j - i"
      show "1 \<le> fst (foldl (advance op cl) st (take k (ch # rest)))"
      proof (cases k)
        case 0
        then show ?thesis using d1 st by simp
      next
        case (Suc k')
        with k ji have "k' \<le> j - Suc i" by simp
        with ih(4) show ?thesis unfolding Suc st using adv by simp
      qed
    qed
    show ?thesis using ih all unfolding ji st using adv by simp
  qed
qed

lemma scan_loop_None:
  "1 \<le> fst st \<Longrightarrow>
   scan_loop op cl (fst st) (fst (snd st)) (fst (snd (snd st))) (snd (snd (snd st))) i rest = None \<Longrightarrow>
     (\<forall>k \<le> length rest. 1 \<le> fst (foldl (advance op cl) st (take k rest)))"
proof (induction rest arbitrary: st i)
  case Nil
  then show ?case by simp
next
  case (Cons ch rest)
  obtain d ins e q where st: "st = (d, ins, e, q)" by (cases st) auto
  obtain d' ins' e' q' where adv: "advance op cl (d, ins, e, q) ch = (d', ins', e', q')"
    by (cases "advance op cl (d, ins, e, q) ch") auto
  from Cons.prems(1) st have d1: "1 \<le> d" by simp
  have d'0: "0 \<le> d'" using advance_depth_ge[OF d1, of op cl ins e q ch] adv by simp
  from Cons.prems(2)
  have eq: "(if d' = 0 then Some i else scan_loop op cl d' ins' e' q' (Suc i) rest) = None"
    unfolding st using scan_loop_Cons[OF d1, of op cl ins e q i ch rest] adv by simp
  then have nz: "d' \<noteq> 0" and rec: "scan_loop op cl d' ins' e' q' (Suc i) rest = None"
    by (auto split: if_splits)
  from nz d'0 have "1 \<le> d'" by simp
  from Cons.IH[of "(d', ins', e', q')" "Suc i"] this rec
  have ih: "\<forall>k \<le> length rest. 1 \<le> fst (foldl (advance op cl) (d', ins', e', q') (take k rest))"
    by simp
  show ?case
  proof (intro allI impI)
    fix k assume k: "k \<le> length (ch # rest)"
    show "1 \<le> fst (foldl (advance op cl) st (take k (ch # rest)))"
    proof (cases k)
      case 0
      then show ?thesis using d1 st by simp
    next
      case (Suc k')
      with k have "k' \<le> length rest" by simp
      with ih show ?thesis unfolding Suc st using adv by simp
    qed
  qed
qed

text \<open>An opening character that is a quote is never counted: the depth cannot rise.\<close>

lemma advance_quote:
  "op = CHR 0x22 \<or> op = CHR 0x27 \<Longrightarrow> fst (advance op cl st ch) \<le> fst st"
  by (cases st) auto

lemma scan_loop_step:
  "scan_loop op cl d ins e q i (ch # rest) =
     (if \<not> ins \<and> ch \<noteq> CHR 0x22 \<and> ch \<noteq> CHR 0x27 \<and> ch \<noteq> op \<and> ch = cl \<and> d = 1 then Some i
      else case advance op cl (d, ins, e, q) ch of
        (d', ins', e', q') \<Rightarrow> scan_loop op cl d' ins' e' q' (Suc i) rest)"
  by (cases ins; cases "ch = cl"; cases "ch = op"; cases "d = 1"; simp)

lemma scan_loop_quote:
  assumes "op = CHR 0x22 \<or> op = CHR 0x27"
  shows "d \<le> 0 \<Longrightarrow> scan_loop op cl d ins e q i rest = None"
proof (induction rest arbitrary: d ins e q i)
  case Nil
  show ?case by simp
next
  case (Cons ch rest)
  obtain d' ins' e' q' where adv: "advance op cl (d, ins, e, q) ch = (d', ins', e', q')"
    by (cases "advance op cl (d, ins, e, q) ch") auto
  have "d' \<le> d" using advance_quote[OF assms, of cl "(d, ins, e, q)" ch] adv by simp
  with Cons.prems have "d' \<le> 0" by simp
  then have "scan_loop op cl d' ins' e' q' (Suc i) rest = None" by (rule Cons.IH)
  moreover from Cons.prems have "d \<noteq> 1" by simp
  ultimately show ?case unfolding scan_loop_step adv by simp
qed

lemma advance_lower:
  "fst (advance op cl st ch) < fst st \<Longrightarrow> ch = cl \<and> \<not> fst (snd st)"
  by (cases st) (auto split: if_splits)

lemma run_snoc: "run op cl (s @ [ch]) = advance op cl (run op cl s) ch"
  by (simp add: run_def)

lemma take_Suc_snoc: "n < length s \<Longrightarrow> take (Suc n) s = take n s @ [s ! n]"
  by (simp add: take_Suc_conv_app_nth)

lemma depth_quote:
  assumes "op = CHR 0x22 \<or> op = CHR 0x27"
  shows "depth_after op cl s \<le> 0"
proof (induction s rule: rev_induct)
  case Nil
  then show ?case by (simp add: depth_after_def run_def)
next
  case (snoc ch s)
  have "depth_after op cl (s @ [ch]) \<le> depth_after op cl s"
    unfolding depth_after_def run_snoc using assms by (rule advance_quote)
  with snoc show ?case by simp
qed

lemma no_return_quote:
  assumes "op = CHR 0x22 \<or> op = CHR 0x27"
  shows "\<not> returns_to_zero op cl s n"
proof
  assume r: "returns_to_zero op cl s n"
  then have n: "n < length s" and nz: "depth_after op cl (take n s) \<noteq> 0"
    and z: "depth_after op cl (take (Suc n) s) = 0"
    by (simp_all add: returns_to_zero_def)
  have "depth_after op cl (take n s) \<le> 0" using assms by (rule depth_quote)
  with nz have neg: "depth_after op cl (take n s) < 0" by simp
  have "depth_after op cl (take (Suc n) s) \<le> depth_after op cl (take n s)"
    unfolding take_Suc_snoc[OF n] depth_after_def run_snoc using assms by (rule advance_quote)
  with neg z show False by simp
qed

subsection \<open>The first opening bracket\<close>

lemma find_char_None: "find_char text ch = None \<longleftrightarrow> ch \<notin> set text"
  by (induction "text") auto

lemma find_char_Some:
  "find_char text ch = Some n \<Longrightarrow>
     n < length text \<and> ch \<notin> set (take n text) \<and> drop n text = ch # drop (Suc n) text"
proof (induction "text" arbitrary: n)
  case Nil
  then show ?case by simp
next
  case (Cons x xs)
  show ?case
  proof (cases "x = ch")
    case True
    with Cons.prems show ?thesis by simp
  next
    case False
    with Cons.prems obtain m where m: "find_char xs ch = Some m" "n = Suc m" by auto
    from Cons.IH[OF m(1)] m(2) False show ?thesis by simp
  qed
qed

lemma from_first_none: "ch \<notin> set text \<Longrightarrow> from_first ch text = []"
  by (auto simp: from_first_def)

lemma from_first_drop: "find_char text ch = Some n \<Longrightarrow> from_first ch text = drop n text"
  by (induction "text" arbitrary: n) (auto simp: from_first_def split: if_splits)

lemma from_first_append:
  "ch \<notin> set pre \<Longrightarrow> from_first ch (pre @ ch # rest) = ch # rest"
  by (induction pre) (auto simp: from_first_def)

lemma text_from_first: "\<exists>pre. text = pre @ from_first ch text \<and> ch \<notin> set pre"
proof -
  have "text = takeWhile (\<lambda>x. x \<noteq> ch) text @ from_first ch text"
    by (simp add: from_first_def)
  moreover have "ch \<notin> set (takeWhile (\<lambda>x. x \<noteq> ch) text)"
    by (auto dest: set_takeWhileD)
  ultimately show ?thesis by blast
qed

subsection \<open>What \<open>extract_balanced_block\<close> returns\<close>

lemma depth_after_open:
  "op \<noteq> CHR 0x22 \<Longrightarrow> op \<noteq> CHR 0x27 \<Longrightarrow>
   depth_after op cl (op # s) = fst (foldl (advance op cl) (1, False, False, None) s)"
  by (simp add: depth_after_def run_def)

lemma extract_Some:
  assumes "extract_balanced_block text op cl = Some s"
  shows "\<exists>n. s = take (Suc n) (from_first op text) \<and> 0 < n \<and> n < length (from_first op text) \<and>
             depth_after op cl (take (Suc n) (from_first op text)) = 0 \<and>
             (\<forall>k. 0 < k \<and> k \<le> n \<longrightarrow> 0 < depth_after op cl (take k (from_first op text)))"
proof -
  from assms obtain start i where start: "find_char text op = Some start"
    and loop: "scan_loop op cl 0 False False None start (drop start text) = Some i"
    and s: "s = slice text start (i + 1)"
    by (auto simp: extract_balanced_block_def split: option.splits)
  define rest where "rest = drop (Suc start) text"
  from find_char_Some[OF start] have tail: "drop start text = op # rest"
    by (simp add: rest_def)
  have ff: "from_first op text = op # rest" using from_first_drop[OF start] tail by simp
  have nq: "op \<noteq> CHR 0x22 \<and> op \<noteq> CHR 0x27"
  proof (rule ccontr)
    assume "\<not> ?thesis"
    then have q: "op = CHR 0x22 \<or> op = CHR 0x27" by blast
    then have "scan_loop op cl 0 False False None start (op # rest) =
        scan_loop op cl 0 True False (Some op) (start + 1) rest" by auto
    also have "\<dots> = None" using q by (rule scan_loop_quote) simp
    finally show False using loop tail by simp
  qed
  then have "scan_loop op cl 0 False False None start (op # rest) =
      scan_loop op cl 1 False False None (Suc start) rest" by simp
  with loop tail have loop': "scan_loop op cl 1 False False None (Suc start) rest = Some i" by simp
  from scan_loop_Some[of "(1, False, False, None)" op cl "Suc start" rest i] loop'
  have i: "Suc start \<le> i" and m: "i - Suc start < length rest"
    and z: "fst (foldl (advance op cl) (1, False, False, None) (take (Suc (i - Suc start)) rest)) = 0"
    and pos: "\<forall>k \<le> i - Suc start. 1 \<le> fst (foldl (advance op cl) (1, False, False, None) (take k rest))"
    by simp_all
  define n where "n = Suc (i - Suc start)"
  from i have len: "i + 1 - start = Suc n" by (simp add: n_def)
  have 1: "s = take (Suc n) (from_first op text)" using s tail ff len by (simp add: slice_def)
  have 2: "0 < n" "n < length (from_first op text)" using m ff by (simp_all add: n_def)
  have 3: "depth_after op cl (take (Suc n) (from_first op text)) = 0"
    using z nq by (simp add: ff n_def depth_after_open)
  have 4: "\<forall>k. 0 < k \<and> k \<le> n \<longrightarrow> 0 < depth_after op cl (take k (from_first op text))"
  proof (intro allI impI)
    fix k assume k: "0 < k \<and> k \<le> n"
    then obtain k' where k': "k = Suc k'" by (cases k) auto
    with k have "k' \<le> i - Suc start" by (simp add: n_def)
    with pos have "1 \<le> fst (foldl (advance op cl) (1, False, False, None) (take k' rest))" by blast
    then show "0 < depth_after op cl (take k (from_first op text))"
      using nq by (simp add: ff k' depth_after_open)
  qed
  from 1 2 3 4 show ?thesis by blast
qed

lemma extract_None:
  assumes "extract_balanced_block text op cl = None"
  shows "\<not> returns_to_zero op cl (from_first op text) n"
proof (cases "find_char text op")
  case None
  then have "from_first op text = []" by (simp add: find_char_None from_first_none)
  then show ?thesis by (simp add: returns_to_zero_def)
next
  case (Some start)
  define rest where "rest = drop (Suc start) text"
  from find_char_Some[OF Some] have tail: "drop start text = op # rest"
    by (simp add: rest_def)
  have ff: "from_first op text = op # rest" using from_first_drop[OF Some] tail by simp
  show ?thesis
  proof (cases "op = CHR 0x22 \<or> op = CHR 0x27")
    case True
    then show ?thesis by (rule no_return_quote)
  next
    case False
    from assms Some tail have "scan_loop op cl 0 False False None start (op # rest) = None"
      by (auto simp: extract_balanced_block_def split: option.splits)
    with False have "scan_loop op cl 1 False False None (Suc start) rest = None" by simp
    from scan_loop_None[of "(1, False, False, None)" op cl "Suc start" rest] this
    have pos: "\<forall>k \<le> length rest. 1 \<le> fst (foldl (advance op cl) (1, False, False, None) (take k rest))"
      by simp
    show ?thesis
    proof
      assume "returns_to_zero op cl (from_first op text) n"
      then have n: "n < length (op # rest)"
        and z: "depth_after op cl (take (Suc n) (op # rest)) = 0"
        by (simp_all add: returns_to_zero_def ff)
      from n have "n \<le> length rest" by simp
      with pos have "1 \<le> fst (foldl (advance op cl) (1, False, False, None) (take n rest))" by blast
      with z False show False by (simp add: depth_after_open)
    qed
  qed
qed

lemma from_first_hd: "from_first ch t \<noteq> [] \<Longrightarrow> hd (from_first ch t) = ch"
  unfolding from_first_def using hd_dropWhile[of "\<lambda>x. x \<noteq> ch" t] by simp

lemma extract_balanced:
  assumes "extract_balanced_block t op cl = Some s"
  shows "balanced_block op cl s" and "\<exists>post. from_first op t = s @ post"
    and "last s = cl" and "\<not> in_str_after op cl (butlast s)"
proof -
  from extract_Some[OF assms] obtain n where s: "s = take (Suc n) (from_first op t)"
    and n: "0 < n" "n < length (from_first op t)"
    and z: "depth_after op cl (take (Suc n) (from_first op t)) = 0"
    and pos: "\<forall>k. 0 < k \<and> k \<le> n \<longrightarrow> 0 < depth_after op cl (take k (from_first op t))"
    by blast
  from n have ne: "from_first op t \<noteq> []" by auto
  have len: "length s = Suc n" using s n by simp
  have hd: "hd s = op" using from_first_hd[OF ne] s ne by (cases "from_first op t") auto
  have prefix: "\<forall>k. 0 < k \<and> k < length s \<longrightarrow> 0 < depth_after op cl (take k s)"
  proof (intro allI impI)
    fix k assume k: "0 < k \<and> k < length s"
    with len have "k \<le> n" by simp
    then have "take k s = take k (from_first op t)" unfolding s by (simp add: min_def)
    with pos k \<open>k \<le> n\<close> show "0 < depth_after op cl (take k s)" by simp
  qed
  show "balanced_block op cl s"
    unfolding balanced_block_def using len n hd z prefix s by simp
  have "from_first op t = s @ drop (Suc n) (from_first op t)" unfolding s by simp
  then show "\<exists>post. from_first op t = s @ post" ..
  have snoc: "s = take n (from_first op t) @ [from_first op t ! n]"
    unfolding s using n(2) by (rule take_Suc_snoc)
  have before: "0 < depth_after op cl (take n (from_first op t))" using pos n(1) by simp
  have "fst (advance op cl (run op cl (take n (from_first op t))) (from_first op t ! n))
      < fst (run op cl (take n (from_first op t)))"
    using z before unfolding s[symmetric] by (simp add: snoc depth_after_def run_snoc)
  from advance_lower[OF this]
  have "from_first op t ! n = cl" and "\<not> fst (snd (run op cl (take n (from_first op t))))"
    by simp_all
  then show "last s = cl" and "\<not> in_str_after op cl (butlast s)"
    by (simp_all add: snoc in_str_after_def)
qed

lemma extract_None_iff:
  "extract_balanced_block t op cl = None \<longleftrightarrow> (\<forall>n. \<not> returns_to_zero op cl (from_first op t) n)"
proof
  assume "extract_balanced_block t op cl = None"
  then show "\<forall>n. \<not> returns_to_zero op cl (from_first op t) n" using extract_None by blast
next
  assume no: "\<forall>n. \<not> returns_to_zero op cl (from_first op t) n"
  show "extract_balanced_block t op cl = None"
  proof (rule ccontr)
    assume "extract_balanced_block t op cl \<noteq> None"
    then obtain s where "extract_balanced_block t op cl = Some s" by auto
    from extract_Some[OF this] obtain n where n: "0 < n" "n < length (from_first op t)"
      and z: "depth_after op cl (take (Suc n) (from_first op t)) = 0"
      and pos: "\<forall>k. 0 < k \<and> k \<le> n \<longrightarrow> 0 < depth_after op cl (take k (from_first op t))"
      by blast
    from pos n(1) have "depth_after op cl (take n (from_first op t)) \<noteq> 0" by auto
    with n z have "returns_to_zero op cl (from_first op t) n" by (simp add: returns_to_zero_def)
    with no show False by blast
  qed
qed

lemma extract_block:
  assumes ff: "from_first op t = v @ post" and bal: "balanced_block op cl v"
  shows "extract_balanced_block t op cl = Some v"
proof -
  from bal have len: "1 < length v" and z: "depth_after op cl v = 0"
    and pos: "\<forall>k. 0 < k \<and> k < length v \<longrightarrow> 0 < depth_after op cl (take k v)"
    by (simp_all add: balanced_block_def)
  define m where "m = length v - 1"
  from len have m: "0 < m" "m < length v" "Suc m = length v" by (simp_all add: m_def)
  have "returns_to_zero op cl (from_first op t) m"
    unfolding returns_to_zero_def ff using m z pos by (simp add: less_imp_neq[symmetric])
  then have "extract_balanced_block t op cl \<noteq> None" using extract_None_iff by blast
  then obtain s where s: "extract_balanced_block t op cl = Some s" by auto
  from extract_Some[OF s] obtain n where sn: "s = take (Suc n) (v @ post)"
    and n: "0 < n" "n < length (v @ post)"
    and zn: "depth_after op cl (take (Suc n) (v @ post)) = 0"
    and posn: "\<forall>k. 0 < k \<and> k \<le> n \<longrightarrow> 0 < depth_after op cl (take k (v @ post))"
    unfolding ff by blast
  have "n = m"
  proof (rule ccontr)
    assume "n \<noteq> m"
    then consider "n < m" | "m < n" by linarith
    then show False
    proof cases
      case 1
      then have "Suc n < length v" using m by simp
      with pos have "0 < depth_after op cl (take (Suc n) v)" by simp
      moreover have "take (Suc n) (v @ post) = take (Suc n) v" using \<open>Suc n < length v\<close> by simp
      ultimately show False using zn by (simp only:)
    next
      case 2
      then have "length v \<le> n" using m by simp
      moreover from len have "0 < length v" by auto
      ultimately have "0 < depth_after op cl (take (length v) (v @ post))"
        using posn by blast
      with z show False by simp
    qed
  qed
  with sn m have "s = v" by simp
  with s show ?thesis by simp
qed

text \<open>
  Claim C8. Extractor negative and totality: the extractor reports no match exactly when the
  depth never returns to zero in the text from its first opening bracket on, which includes the
  texts with no opening bracket; and what it returns otherwise is a balanced block that stands
  at the head of that text, never a truncated one. The function is total.
\<close>

theorem extractor_negative:
  "(extract_balanced_block t op cl = None \<longleftrightarrow>
      (\<forall>n. \<not> returns_to_zero op cl (from_first op t) n)) \<and>
   (\<forall>s. extract_balanced_block t op cl = Some s \<longrightarrow>
      balanced_block op cl s \<and> (\<exists>post. from_first op t = s @ post))"
  using extract_None_iff extract_balanced(1,2) by blast

lemma returns_to_zero_bounded:
  "(\<forall>n. \<not> returns_to_zero op cl s n) \<longleftrightarrow>
   list_all (\<lambda>n. \<not> returns_to_zero op cl s n) [0..<length s]"
  by (auto simp: list_all_iff returns_to_zero_def)

theorem extractor_negative_witness:
  \<open>extract_balanced_block ''Sure! [{"title": "X"'' (CHR ''['') (CHR '']'') = None \<and>
   extract_balanced_block ''[1, [2]] and [3]'' (CHR ''['') (CHR '']'') = Some ''[1, [2]]'' \<and>
   balanced_block (CHR ''['') (CHR '']'') ''[1, [2]]''\<close>
proof -
  have \<open>list_all (\<lambda>n. \<not> returns_to_zero (CHR ''['') (CHR '']'')
      (from_first (CHR ''['') ''Sure! [{"title": "X"'') n)
      [0..<length (from_first (CHR ''['') ''Sure! [{"title": "X"'')]\<close>
    by code_simp
  then have no: \<open>\<forall>n. \<not> returns_to_zero (CHR ''['') (CHR '']'')
      (from_first (CHR ''['') ''Sure! [{"title": "X"'') n\<close>
    by (simp only: returns_to_zero_bounded)
  have some: "extract_balanced_block ''[1, [2]] and [3]'' (CHR ''['') (CHR '']'') = Some ''[1, [2]]''"
    by code_simp
  from no extractor_negative[of \<open>''Sure! [{"title": "X"''\<close> "CHR ''[''" "CHR '']''"]
  have 1: \<open>extract_balanced_block ''Sure! [{"title": "X"'' (CHR ''['') (CHR '']'') = None\<close>
    by blast
  from some extractor_negative[of "''[1, [2]] and [3]''" "CHR ''[''" "CHR '']''"]
  have 2: "balanced_block (CHR ''['') (CHR '']'') ''[1, [2]]''" by blast
  from 1 some 2 show ?thesis by blast
qed

text \<open>
  Claim C10. Result invariant of the extractor: a returned string is the part of the text that
  begins at the first \<open>open_ch\<close>, its first character is \<open>open_ch\<close> and its last \<open>close_ch\<close>, the
  last character stands outside string mode, and the depth is zero after the whole string and
  positive after every shorter part of it that is not empty.
\<close>

theorem extractor_result_invariant:
  assumes "extract_balanced_block t op cl = Some s"
  shows "(\<exists>pre post. t = pre @ s @ post \<and> op \<notin> set pre) \<and>
         s \<noteq> [] \<and> hd s = op \<and> last s = cl \<and>
         \<not> in_str_after op cl (butlast s) \<and>
         depth_after op cl s = 0 \<and>
         (\<forall>k. 0 < k \<and> k < length s \<longrightarrow> 0 < depth_after op cl (take k s))"
proof -
  obtain pre where pre: "t = pre @ from_first op t" "op \<notin> set pre"
    using text_from_first by blast
  from extract_balanced(2)[OF assms] obtain post where "from_first op t = s @ post" ..
  with pre have "t = pre @ s @ post" by simp
  with pre(2) have 1: "\<exists>pre post. t = pre @ s @ post \<and> op \<notin> set pre" by blast
  from extract_balanced(1)[OF assms]
  have 2: "1 < length s" "hd s = op" "depth_after op cl s = 0"
    "\<forall>k. 0 < k \<and> k < length s \<longrightarrow> 0 < depth_after op cl (take k s)"
    by (simp_all add: balanced_block_def)
  from 2(1) have "s \<noteq> []" by auto
  with 1 2 extract_balanced(3,4)[OF assms] show ?thesis by blast
qed

theorem extractor_result_invariant_witness:
  \<open>extract_balanced_block ''see {"a": "}", "b": {"c": 1}} and }'' (CHR ''{'') (CHR ''}'')
     = Some ''{"a": "}", "b": {"c": 1}}'' \<and>
   hd ''{"a": "}", "b": {"c": 1}}'' = CHR ''{'' \<and>
   last ''{"a": "}", "b": {"c": 1}}'' = CHR ''}'' \<and>
   depth_after (CHR ''{'') (CHR ''}'') ''{"a": "}", "b": {"c": 1}}'' = 0 \<and>
   0 < depth_after (CHR ''{'') (CHR ''}'') (take 8 ''{"a": "}", "b": {"c": 1}}'')\<close>
proof -
  have h: \<open>extract_balanced_block ''see {"a": "}", "b": {"c": 1}} and }'' (CHR ''{'') (CHR ''}'')
     = Some ''{"a": "}", "b": {"c": 1}}''\<close>
    by code_simp
  have \<open>(0::nat) < 8 \<and> 8 < length ''{"a": "}", "b": {"c": 1}}''\<close> by simp
  with h extractor_result_invariant[OF h] show ?thesis by blast
qed


section \<open>Well-formed JSON texts are balanced blocks\<close>

lemma stays_above_append:
  "stays_above op cl d st (s @ t) \<longleftrightarrow>
     stays_above op cl d st s \<and> stays_above op cl d (foldl (advance op cl) st s) t"
  by (induction s arbitrary: st) auto

lemma stays_above_take:
  "stays_above op cl d st s \<Longrightarrow> d \<le> fst st \<Longrightarrow> d \<le> fst (foldl (advance op cl) st (take k s))"
proof (induction s arbitrary: st k)
  case Nil
  then show ?case by simp
next
  case (Cons ch s)
  then show ?case by (cases k) auto
qed

lemma stays_above_mono: "stays_above op cl d st s \<Longrightarrow> d' \<le> d \<Longrightarrow> stays_above op cl d' st s"
  by (induction s arbitrary: st) auto

lemma neutral_Nil: "depth_neutral op cl []"
  by (simp add: depth_neutral_def)

lemma neutral_append:
  assumes "depth_neutral op cl s" and "depth_neutral op cl t"
  shows "depth_neutral op cl (s @ t)"
  unfolding depth_neutral_def
proof (intro allI)
  fix d q
  from assms(1) obtain q1 where s: "foldl (advance op cl) (d, False, False, q) s = (d, False, False, q1)"
    and sa: "stays_above op cl d (d, False, False, q) s"
    unfolding depth_neutral_def by blast
  from assms(2) obtain q2 where t: "foldl (advance op cl) (d, False, False, q1) t = (d, False, False, q2)"
    and ta: "stays_above op cl d (d, False, False, q1) t"
    unfolding depth_neutral_def by blast
  show "(\<exists>q'. foldl (advance op cl) (d, False, False, q) (s @ t) = (d, False, False, q')) \<and>
        stays_above op cl d (d, False, False, q) (s @ t)"
    using s sa t ta by (simp add: stays_above_append)
qed

lemma neutral_plain:
  "ch \<noteq> CHR 0x22 \<Longrightarrow> ch \<noteq> CHR 0x27 \<Longrightarrow> ch \<noteq> op \<Longrightarrow> ch \<noteq> cl \<Longrightarrow> depth_neutral op cl [ch]"
  by (simp add: depth_neutral_def)

lemma neutral_Cons:
  "ch \<noteq> CHR 0x22 \<Longrightarrow> ch \<noteq> CHR 0x27 \<Longrightarrow> ch \<noteq> op \<Longrightarrow> ch \<noteq> cl \<Longrightarrow> depth_neutral op cl s
     \<Longrightarrow> depth_neutral op cl (ch # s)"
  using neutral_append[OF neutral_plain, of ch op cl s] by simp

lemma neutral_plain_all:
  "\<forall>ch \<in> set s. ch \<noteq> CHR 0x22 \<and> ch \<noteq> CHR 0x27 \<and> ch \<noteq> op \<and> ch \<noteq> cl \<Longrightarrow> depth_neutral op cl s"
  by (induction s) (simp_all add: neutral_Nil neutral_Cons)

lemma neutral_wrap:
  assumes "bracket_pair op cl" and "depth_neutral op cl s"
  shows "depth_neutral op cl (op # s @ [cl])"
  unfolding depth_neutral_def
proof (intro allI)
  fix d q
  from assms(2) obtain q1 where s: "foldl (advance op cl) (d + 1, False, False, q) s = (d + 1, False, False, q1)"
    and sa: "stays_above op cl (d + 1) (d + 1, False, False, q) s"
    unfolding depth_neutral_def by blast
  from sa have sa': "stays_above op cl d (d + 1, False, False, q) s"
    by (rule stays_above_mono) simp
  have opn: "advance op cl (d, False, False, q) op = (d + 1, False, False, q)"
    using assms(1) by (auto simp: bracket_pair_def)
  have cls: "advance op cl (d + 1, False, False, q1) cl = (d, False, False, q1)"
    using assms(1) by (auto simp: bracket_pair_def)
  show "(\<exists>q'. foldl (advance op cl) (d, False, False, q) (op # s @ [cl]) = (d, False, False, q')) \<and>
        stays_above op cl d (d, False, False, q) (op # s @ [cl])"
    using opn cls s sa' by (simp add: stays_above_append del: advance.simps)
qed

lemma neutral_bracket:
  assumes "bracket_pair op cl" and "bracket_pair b1 b2" and "depth_neutral op cl s"
  shows "depth_neutral op cl (b1 # s @ [b2])"
proof (cases "b1 = op")
  case True
  with assms(1,2) have "b2 = cl" by (auto simp: bracket_pair_def)
  with True neutral_wrap[OF assms(1,3)] show ?thesis by simp
next
  case False
  with assms(1,2) have 1: "depth_neutral op cl [b1]" and 2: "depth_neutral op cl [b2]"
    by (auto simp: bracket_pair_def intro!: neutral_plain)
  from neutral_append[OF 1 neutral_append[OF assms(3) 2]] show ?thesis by simp
qed

lemma hex_digit_plain: "hex_digit h \<Longrightarrow> h \<noteq> CHR 0x22 \<and> h \<noteq> CHR 0x5C"
  by (auto simp: hex_digit_def)

lemma json_chars_inside:
  "json_chars b \<Longrightarrow>
     foldl (advance op cl) (d, True, False, Some (CHR 0x22)) b = (d, True, False, Some (CHR 0x22)) \<and>
     stays_above op cl d (d, True, False, Some (CHR 0x22)) b"
proof (induction rule: json_chars.induct)
  case chars_end
  show ?case by simp
next
  case (chars_plain ch s)
  then show ?case by simp
next
  case (chars_escape ch s)
  then show ?case by simp
next
  case (chars_unicode h1 h2 h3 h4 s)
  then show ?case using hex_digit_plain[of h1] hex_digit_plain[of h2] hex_digit_plain[of h3]
      hex_digit_plain[of h4] by simp
qed

lemma neutral_string: "json_string s \<Longrightarrow> depth_neutral op cl s"
  unfolding depth_neutral_def json_string_def
  using json_chars_inside by (auto simp: stays_above_append)

lemma neutral_ws: "json_ws w \<Longrightarrow> bracket_pair op cl \<Longrightarrow> depth_neutral op cl w"
  by (rule neutral_plain_all) (auto simp: json_ws_def bracket_pair_def)

lemma digits_plain:
  "digits s \<Longrightarrow> bracket_pair op cl \<Longrightarrow> depth_neutral op cl s"
  by (rule neutral_plain_all) (auto simp: digits_def bracket_pair_def)

lemma neutral_number:
  assumes "json_number s" and bp: "bracket_pair op cl"
  shows "depth_neutral op cl s"
proof -
  from assms(1) obtain sign whole frac ex where s: "s = sign @ whole @ frac @ ex"
    and sign: "sign = [] \<or> sign = ''-''"
    and whole: "whole = ''0'' \<or> (digits whole \<and> hd whole \<noteq> CHR ''0'')"
    and frac: "frac = [] \<or> (\<exists>ds. digits ds \<and> frac = CHR ''.'' # ds)"
    and ex: "ex = [] \<or> (\<exists>e sg ds. (e = CHR ''e'' \<or> e = CHR ''E'') \<and>
                                (sg = [] \<or> sg = ''+'' \<or> sg = ''-'') \<and> digits ds \<and>
                                ex = e # sg @ ds)"
    unfolding json_number_def by blast
  have 1: "depth_neutral op cl sign" using sign bp
    by (auto simp: bracket_pair_def intro!: neutral_plain_all)
  have 2: "depth_neutral op cl whole"
  proof (cases "whole = ''0''")
    case True
    then show ?thesis using bp by (auto simp: bracket_pair_def intro!: neutral_plain_all)
  next
    case False
    with whole have "digits whole" by simp
    then show ?thesis using bp by (rule digits_plain)
  qed
  have 3: "depth_neutral op cl frac" using frac bp digits_plain[OF _ bp]
    by (auto simp: bracket_pair_def neutral_Nil intro!: neutral_Cons)
  have 4: "depth_neutral op cl ex"
  proof -
    from ex consider "ex = []" | e sg ds where "e = CHR ''e'' \<or> e = CHR ''E''"
      "sg = [] \<or> sg = ''+'' \<or> sg = ''-''" "digits ds" "ex = e # sg @ ds" by blast
    then show ?thesis
    proof cases
      case 1
      then show ?thesis by (simp add: neutral_Nil)
    next
      case 2
      have "depth_neutral op cl sg" using 2(2) bp
        by (auto simp: bracket_pair_def intro!: neutral_plain_all)
      then have "depth_neutral op cl (sg @ ds)" using digits_plain[OF 2(3) bp] by (rule neutral_append)
      then show ?thesis unfolding 2(4) using 2(1) bp
        by (auto simp: bracket_pair_def intro!: neutral_Cons)
    qed
  qed
  show ?thesis unfolding s by (intro neutral_append 1 2 3 4)
qed

lemma neutral_json:
  assumes bp: "bracket_pair op cl"
  shows "json_value v \<Longrightarrow> depth_neutral op cl v"
    and "json_array a \<Longrightarrow> depth_neutral op cl a"
    and "json_object ob \<Longrightarrow> depth_neutral op cl ob"
    and "json_elements es \<Longrightarrow> depth_neutral op cl es"
    and "json_members ms \<Longrightarrow> depth_neutral op cl ms"
proof (induction rule: json_value_json_array_json_object_json_elements_json_members.inducts)
  case value_null
  show ?case using bp by (auto simp: bracket_pair_def intro!: neutral_plain_all)
next
  case value_true
  show ?case using bp by (auto simp: bracket_pair_def intro!: neutral_plain_all)
next
  case value_false
  show ?case using bp by (auto simp: bracket_pair_def intro!: neutral_plain_all)
next
  case (value_number s)
  then show ?case using bp by (rule neutral_number)
next
  case (value_string s)
  then show ?case by (rule neutral_string)
next
  case (value_array s)
  then show ?case by simp
next
  case (value_object s)
  then show ?case by simp
next
  case (array_empty w)
  have "bracket_pair (CHR ''['') (CHR '']'')" by (simp add: bracket_pair_def)
  from neutral_bracket[OF bp this neutral_ws[OF array_empty bp]] show ?case by simp
next
  case (array_elements es)
  have "bracket_pair (CHR ''['') (CHR '']'')" by (simp add: bracket_pair_def)
  from neutral_bracket[OF bp this array_elements.IH] show ?case by simp
next
  case (object_empty w)
  have "bracket_pair (CHR ''{'') (CHR ''}'')" by (simp add: bracket_pair_def)
  from neutral_bracket[OF bp this neutral_ws[OF object_empty bp]] show ?case by simp
next
  case (object_members ms)
  have "bracket_pair (CHR ''{'') (CHR ''}'')" by (simp add: bracket_pair_def)
  from neutral_bracket[OF bp this object_members.IH] show ?case by simp
next
  case (elements_last w1 v w2)
  note w1 = neutral_ws[OF elements_last.hyps(1) bp] and w2 = neutral_ws[OF elements_last.hyps(3) bp]
  from neutral_append[OF w1 neutral_append[OF elements_last.IH w2]] show ?case .
next
  case (elements_more w1 v w2 es)
  note w1 = neutral_ws[OF elements_more.hyps(1) bp] and w2 = neutral_ws[OF elements_more.hyps(3) bp]
  have comma: "depth_neutral op cl '',''" using bp
    by (auto simp: bracket_pair_def intro!: neutral_plain)
  from neutral_append[OF w1 neutral_append[OF elements_more.IH(1) neutral_append[OF w2
    neutral_append[OF comma elements_more.IH(2)]]]]
  show ?case by simp
next
  case (members_last w1 k w2 w3 v w4)
  note w1 = neutral_ws[OF members_last.hyps(1) bp] and w2 = neutral_ws[OF members_last.hyps(3) bp]
    and w3 = neutral_ws[OF members_last.hyps(4) bp] and w4 = neutral_ws[OF members_last.hyps(6) bp]
    and k = neutral_string[OF members_last.hyps(2), of op cl]
  have colon: "depth_neutral op cl '':''" using bp
    by (auto simp: bracket_pair_def intro!: neutral_plain)
  from neutral_append[OF w1 neutral_append[OF k neutral_append[OF w2 neutral_append[OF colon
    neutral_append[OF w3 neutral_append[OF members_last.IH w4]]]]]]
  show ?case by simp
next
  case (members_more w1 k w2 w3 v w4 ms)
  note w1 = neutral_ws[OF members_more.hyps(1) bp] and w2 = neutral_ws[OF members_more.hyps(3) bp]
    and w3 = neutral_ws[OF members_more.hyps(4) bp] and w4 = neutral_ws[OF members_more.hyps(6) bp]
    and k = neutral_string[OF members_more.hyps(2), of op cl]
  have colon: "depth_neutral op cl '':''" and comma: "depth_neutral op cl '',''" using bp
    by (auto simp: bracket_pair_def intro!: neutral_plain)
  from neutral_append[OF w1 neutral_append[OF k neutral_append[OF w2 neutral_append[OF colon
    neutral_append[OF w3 neutral_append[OF members_more.IH(1) neutral_append[OF w4
    neutral_append[OF comma members_more.IH(2)]]]]]]]]
  show ?case by simp
qed

lemma neutral_block:
  assumes bp: "bracket_pair op cl" and nt: "depth_neutral op cl inner"
  shows "balanced_block op cl (op # inner @ [cl])"
proof -
  have opn: "advance op cl (0, False, False, None) op = (1, False, False, None)"
    using bp by (auto simp: bracket_pair_def)
  from nt obtain q' where inner: "foldl (advance op cl) (1, False, False, None) inner = (1, False, False, q')"
    and above: "stays_above op cl 1 (1, False, False, None) inner"
    unfolding depth_neutral_def by blast
  have cls: "advance op cl (1, False, False, q') cl = (0, False, False, q')"
    using bp by (auto simp: bracket_pair_def)
  have z: "depth_after op cl (op # inner @ [cl]) = 0"
    using opn inner cls by (simp add: depth_after_def run_def del: advance.simps)
  have pos: "\<forall>k. 0 < k \<and> k < length (op # inner @ [cl]) \<longrightarrow>
      0 < depth_after op cl (take k (op # inner @ [cl]))"
  proof (intro allI impI)
    fix k assume k: "0 < k \<and> k < length (op # inner @ [cl])"
    then obtain k' where k': "k = Suc k'" "k' \<le> length inner" by (cases k) auto
    have "1 \<le> fst (foldl (advance op cl) (1, False, False, None) (take k' inner))"
      using above by (rule stays_above_take) simp
    then show "0 < depth_after op cl (take k (op # inner @ [cl]))"
      using k' opn by (simp add: depth_after_def run_def del: advance.simps)
  qed
  show ?thesis unfolding balanced_block_def using z pos by simp
qed

lemma json_array_balanced:
  assumes "json_array v"
  shows "balanced_block (CHR ''['') (CHR '']'') v" and "hd v = CHR ''[''"
proof -
  have bp: "bracket_pair (CHR ''['') (CHR '']'')" by (simp add: bracket_pair_def)
  from assms obtain inner where v: "v = CHR ''['' # inner @ '']''"
    and inner: "json_ws inner \<or> json_elements inner"
    by (cases rule: json_array.cases) auto
  from inner have "depth_neutral (CHR ''['') (CHR '']'') inner"
    using neutral_ws[OF _ bp] neutral_json(4)[OF bp] by blast
  from neutral_block[OF bp this] show "balanced_block (CHR ''['') (CHR '']'') v"
    unfolding v by simp
  show "hd v = CHR ''[''" unfolding v by simp
qed

lemma json_object_balanced:
  assumes "json_object v"
  shows "balanced_block (CHR ''{'') (CHR ''}'') v" and "hd v = CHR ''{''"
proof -
  have bp: "bracket_pair (CHR ''{'') (CHR ''}'')" by (simp add: bracket_pair_def)
  from assms obtain inner where v: "v = CHR ''{'' # inner @ ''}''"
    and inner: "json_ws inner \<or> json_members inner"
    by (cases rule: json_object.cases) auto
  from inner have "depth_neutral (CHR ''{'') (CHR ''}'') inner"
    using neutral_ws[OF _ bp] neutral_json(5)[OF bp] by blast
  from neutral_block[OF bp this] show "balanced_block (CHR ''{'') (CHR ''}'') v"
    unfolding v by simp
  show "hd v = CHR ''{''" unfolding v by simp
qed

lemma extract_at_first:
  assumes bal: "balanced_block op cl v" and hd: "hd v = op" and pre: "op \<notin> set pre"
  shows "extract_balanced_block (pre @ v @ post) op cl = Some v"
proof -
  from bal have "v \<noteq> []" by (auto simp: balanced_block_def)
  with hd obtain rest where v: "v = op # rest" by (cases v) auto
  have "from_first op (pre @ v @ post) = v @ post"
    unfolding v using from_first_append[OF pre, of "rest @ post"] by simp
  then show ?thesis using bal by (rule extract_block)
qed

text \<open>
  Claim C1, as amended. Extractor correctness: when the sanitized, left-trimmed text is
  \<open>pre @ v @ post\<close>, a well-formed JSON array \<open>v\<close> with no \<open>[\<close> before it is returned exactly;
  a well-formed JSON object \<open>v\<close> with no \<open>{\<close> before it is returned exactly when the search for
  an array finds nothing, that is when the depth for \<open>[\<close> and \<open>]\<close> never returns to zero in the
  text from its first \<open>[\<close> on (as when it has no \<open>[\<close>). Nothing is said of an object for which
  the array search succeeds.
\<close>

theorem extractor_correct:
  assumes "lstrip (strip_code_fences t) = pre @ v @ post"
  shows "(json_array v \<and> CHR ''['' \<notin> set pre \<longrightarrow> extract_first_json t = Some v) \<and>
         (json_object v \<and> CHR ''{'' \<notin> set pre \<and>
          (\<forall>n. \<not> returns_to_zero (CHR ''['') (CHR '']'')
                  (from_first (CHR ''['') (pre @ v @ post)) n)
          \<longrightarrow> extract_first_json t = Some v)"
proof (intro conjI impI)
  assume a: "json_array v \<and> CHR ''['' \<notin> set pre"
  then have "extract_balanced_block (pre @ v @ post) (CHR ''['') (CHR '']'') = Some v"
    using json_array_balanced extract_at_first by blast
  moreover from a have "balanced_block (CHR ''['') (CHR '']'') v" using json_array_balanced(1) by blast
  then have "v \<noteq> []" by (auto simp: balanced_block_def)
  ultimately show "extract_first_json t = Some v"
    using assms by (simp add: extract_first_json_def py_or_def)
next
  assume a: "json_object v \<and> CHR ''{'' \<notin> set pre \<and>
    (\<forall>n. \<not> returns_to_zero (CHR ''['') (CHR '']'') (from_first (CHR ''['') (pre @ v @ post)) n)"
  then have "extract_balanced_block (pre @ v @ post) (CHR ''['') (CHR '']'') = None"
    using extract_None_iff by blast
  moreover from a have "extract_balanced_block (pre @ v @ post) (CHR ''{'') (CHR ''}'') = Some v"
    using json_object_balanced extract_at_first by blast
  moreover from a have "balanced_block (CHR ''{'') (CHR ''}'') v" using json_object_balanced(1) by blast
  then have "v \<noteq> []" by (auto simp: balanced_block_def)
  ultimately show "extract_first_json t = Some v"
    using assms by (simp add: extract_first_json_def py_or_def)
qed

subsection \<open>Concrete JSON texts\<close>

lemma json_chars_plain:
  "\<forall>ch \<in> set b. ch \<noteq> CHR 0x22 \<and> ch \<noteq> CHR 0x5C \<and> 32 \<le> (of_char ch :: nat) \<Longrightarrow> json_chars b"
  by (induction b) (auto intro: json_chars.intros)

lemma json_string_plain:
  "\<forall>ch \<in> set b. ch \<noteq> CHR 0x22 \<and> ch \<noteq> CHR 0x5C \<and> 32 \<le> (of_char ch :: nat)
     \<Longrightarrow> json_string (CHR 0x22 # b @ [CHR 0x22])"
  unfolding json_string_def using json_chars_plain by blast

lemma member_last: "json_string k \<Longrightarrow> json_value v \<Longrightarrow> json_members (k @ CHR '':'' # v)"
  using members_last[of "[]" k "[]" "[]" v "[]"] by (simp add: json_ws_def)

lemma member_more:
  "json_string k \<Longrightarrow> json_value v \<Longrightarrow> json_members ms \<Longrightarrow> json_members (k @ CHR '':'' # v @ CHR '','' # ms)"
  using members_more[of "[]" k "[]" "[]" v "[]" ms] by (simp add: json_ws_def)

lemma element_last: "json_value v \<Longrightarrow> json_elements v"
  using elements_last[of "[]" v "[]"] by (simp add: json_ws_def)

lemma json_value_plain_string:
  "\<forall>ch \<in> set b. ch \<noteq> CHR 0x22 \<and> ch \<noteq> CHR 0x5C \<and> 32 \<le> (of_char ch :: nat)
     \<Longrightarrow> json_value (CHR 0x22 # b @ [CHR 0x22])"
  by (rule value_string) (rule json_string_plain)

lemma section_object:
  \<open>json_object ''{"title":"T","summary":"","tags":[],"content":"c"}''\<close>
proof -
  have k1: \<open>json_string ''"title"''\<close> using json_string_plain[of "''title''"] by simp
  have k2: \<open>json_string ''"summary"''\<close> using json_string_plain[of "''summary''"] by simp
  have k3: \<open>json_string ''"tags"''\<close> using json_string_plain[of "''tags''"] by simp
  have k4: \<open>json_string ''"content"''\<close> using json_string_plain[of "''content''"] by simp
  have v1: \<open>json_value ''"T"''\<close> using json_value_plain_string[of "''T''"] by simp
  have v2: \<open>json_value ''""''\<close> using json_value_plain_string[of "[]"] by simp
  have v3: \<open>json_value ''[]''\<close>
    using value_array[OF array_empty[of "[]"]] by (simp add: json_ws_def)
  have v4: \<open>json_value ''"c"''\<close> using json_value_plain_string[of "''c''"] by simp
  have m4: \<open>json_members ''"content":"c"''\<close> using member_last[OF k4 v4] by simp
  have m3: \<open>json_members ''"tags":[],"content":"c"''\<close> using member_more[OF k3 v3 m4] by simp
  have m2: \<open>json_members ''"summary":"","tags":[],"content":"c"''\<close>
    using member_more[OF k2 v2 m3] by simp
  have m1: \<open>json_members ''"title":"T","summary":"","tags":[],"content":"c"''\<close>
    using member_more[OF k1 v1 m2] by simp
  show ?thesis using object_members[OF m1] by simp
qed

lemma fenced_string_array: \<open>json_array ''["```a```"]''\<close>
proof -
  have \<open>json_value ''"```a```"''\<close> using json_value_plain_string[of "''```a```''"] by simp
  from array_elements[OF element_last[OF this]] show ?thesis by simp
qed

text \<open>
  The claim as stated fails. The bare object of the specification's third scenario is one
  well-formed JSON value, and the pipeline returns the empty array inside it. An array whose only
  element is a string with a fenced run in it is one well-formed JSON value, and the pipeline,
  which strips the fence first, returns nothing.
\<close>

theorem extractor_correct_counterexample:
  \<open>json_object ''{"title":"T","summary":"","tags":[],"content":"c"}'' \<and>
   extract_first_json ''{"title":"T","summary":"","tags":[],"content":"c"}'' = Some ''[]'' \<and>
   json_array ''["```a```"]'' \<and>
   extract_first_json ''["```a```"]'' = None\<close>
proof -
  have \<open>extract_first_json ''{"title":"T","summary":"","tags":[],"content":"c"}'' = Some ''[]''\<close>
    by code_simp
  moreover have \<open>extract_first_json ''["```a```"]'' = None\<close>
    by code_simp
  ultimately show ?thesis using section_object fenced_string_array by blast
qed

lemma escaped_array: \<open>json_array (''[{"k":"]'' @ [CHR 0x5C] @ ''""}]'')\<close>
proof -
  have k: \<open>json_string ''"k"''\<close> using json_string_plain[of "''k''"] by simp
  have "json_chars [CHR '']'', CHR 0x5C, CHR 0x22]"
    by (intro chars_plain chars_escape chars_end) simp_all
  then have "json_string (CHR 0x22 # [CHR '']'', CHR 0x5C, CHR 0x22] @ [CHR 0x22])"
    unfolding json_string_def by blast
  then have v: "json_value [CHR 0x22, CHR '']'', CHR 0x5C, CHR 0x22, CHR 0x22]"
    using value_string by simp
  from object_members[OF member_last[OF k v]]
  have \<open>json_value (''{"k":"]'' @ [CHR 0x5C] @ ''""}'')\<close> using value_object by simp
  from array_elements[OF element_last[OF this]] show ?thesis by simp
qed

lemma closing_in_string_object: \<open>json_object ''{"k":"}"}''\<close>
proof -
  have k: \<open>json_string ''"k"''\<close> using json_string_plain[of "''k''"] by simp
  have v: \<open>json_value ''"}"''\<close> using json_value_plain_string[of "''}''"] by simp
  from object_members[OF member_last[OF k v]] show ?thesis by simp
qed

theorem extractor_correct_witness:
  \<open>extract_first_json (''Sure: [{"k":"]'' @ [CHR 0x5C] @ ''""}] done'')
     = Some (''[{"k":"]'' @ [CHR 0x5C] @ ''""}]'') \<and>
   extract_first_json (''```json'' @ [CHR 0x0A] @ ''{"k":"}"}'' @ [CHR 0x0A] @ ''```'')
     = Some ''{"k":"}"}''\<close>
proof -
  have c1: \<open>lstrip (strip_code_fences (''Sure: [{"k":"]'' @ [CHR 0x5C] @ ''""}] done''))
      = ''Sure: '' @ (''[{"k":"]'' @ [CHR 0x5C] @ ''""}]'') @ '' done''\<close>
    by code_simp
  have p1: "CHR ''['' \<notin> set ''Sure: ''" by simp
  from extractor_correct[OF c1] escaped_array p1
  have 1: \<open>extract_first_json (''Sure: [{"k":"]'' @ [CHR 0x5C] @ ''""}] done'')
     = Some (''[{"k":"]'' @ [CHR 0x5C] @ ''""}]'')\<close>
    by blast
  have c2: \<open>lstrip (strip_code_fences (''```json'' @ [CHR 0x0A] @ ''{"k":"}"}'' @ [CHR 0x0A] @ ''```''))
      = [] @ ''{"k":"}"}'' @ []\<close>
    by code_simp
  have p2: "CHR ''{'' \<notin> set []" by simp
  have n2: \<open>\<forall>n. \<not> returns_to_zero (CHR ''['') (CHR '']'')
      (from_first (CHR ''['') ([] @ ''{"k":"}"}'' @ [])) n\<close>
    by (simp add: returns_to_zero_def from_first_def)
  from extractor_correct[OF c2] closing_in_string_object p2 n2
  have 2: \<open>extract_first_json (''```json'' @ [CHR 0x0A] @ ''{"k":"}"}'' @ [CHR 0x0A] @ ''```'')
     = Some ''{"k":"}"}''\<close>
    by blast
  from 1 2 show ?thesis by blast
qed


section \<open>The repair loop and the materializer\<close>

subsection \<open>What each step leaves behind\<close>






lemma insert_sections_run:
  "insert_sections env name sections w = (r, w') \<Longrightarrow>
     model_calls w' = model_calls w \<and>
     (\<exists>n m. inserts w' = inserts w @ take n (records_of env name (clock w) sections) \<and>
            collection w' = collection w @ take m (records_of env name (clock w) sections) \<and>
            m \<le> n \<and> n \<le> length (records_of env name (clock w) sections) \<and>
            (r = None \<longrightarrow> m = length sections \<and> n = length sections \<and>
               length (records_of env name (clock w) sections) = length sections))"
proof (induction sections arbitrary: w)
  case Nil
  then show ?case by simp
next
  case (Cons sec rest)
  show ?case
  proof (cases sec)
    case (PyDict d)
    define doc where "doc = new_record name d (time_time env (clock w))"
    define w1 where "w1 = w\<lparr>clock := Suc (clock w), inserts := inserts w @ [doc]\<rparr>"
    have recs: "records_of env name (clock w) (sec # rest) =
        doc # records_of env name (Suc (clock w)) rest"
      by (simp add: PyDict doc_def)
    show ?thesis
    proof (cases "insert_one env (inserts w) doc")
      case (Some e)
      with Cons.prems PyDict have "r = Some e" "w' = w1"
        by (simp_all add: Let_def doc_def w1_def)
      then have "inserts w' = inserts w @ take 1 (records_of env name (clock w) (sec # rest))"
        "collection w' = collection w @ take 0 (records_of env name (clock w) (sec # rest))"
        "model_calls w' = model_calls w" "r \<noteq> None"
        by (simp_all add: recs w1_def del: records_of.simps)
      moreover have "(1::nat) \<le> length (records_of env name (clock w) (sec # rest))"
        by (simp add: recs del: records_of.simps)
      ultimately show ?thesis by (metis le_numeral_extra(3) zero_le_one zero_le)
    next
      case None
      define w2 where "w2 = w1\<lparr>collection := collection w1 @ [doc]\<rparr>"
      from Cons.prems PyDict None have "insert_sections env name rest w2 = (r, w')"
        by (simp add: Let_def doc_def w1_def w2_def)
      from Cons.IH[OF this] obtain n m where
        ih: "model_calls w' = model_calls w2"
        "inserts w' = inserts w2 @ take n (records_of env name (clock w2) rest)"
        "collection w' = collection w2 @ take m (records_of env name (clock w2) rest)"
        "m \<le> n" "n \<le> length (records_of env name (clock w2) rest)"
        "r = None \<longrightarrow> m = length rest \<and> n = length rest \<and>
           length (records_of env name (clock w2) rest) = length rest"
        by blast
      have w2: "model_calls w2 = model_calls w" "inserts w2 = inserts w @ [doc]"
        "collection w2 = collection w @ [doc]" "clock w2 = Suc (clock w)"
        by (simp_all add: w2_def w1_def)
      have "inserts w' = inserts w @ take (Suc n) (records_of env name (clock w) (sec # rest))"
        "collection w' = collection w @ take (Suc m) (records_of env name (clock w) (sec # rest))"
        "Suc m \<le> Suc n" "Suc n \<le> length (records_of env name (clock w) (sec # rest))"
        "r = None \<longrightarrow> Suc m = length (sec # rest) \<and> Suc n = length (sec # rest) \<and>
           length (records_of env name (clock w) (sec # rest)) = length (sec # rest)"
        using ih w2 by (simp_all add: recs del: records_of.simps)
      with ih(1) w2(1) show ?thesis by metis
    qed
  qed (use Cons.prems in auto)
qed


lemma materialize_not_break:
  "\<forall>sections. x \<noteq> Break sections \<Longrightarrow> snd (materialize env name (x, w)) = w"
  by (cases x) (simp_all add: materialize_def)







subsection \<open>A response of opening brackets only\<close>











subsection \<open>The documents of a run\<close>

lemma records_of_nth:
  "i < length (records_of env name c sections) \<Longrightarrow>
     \<exists>d. sections ! i = PyDict d \<and>
         records_of env name c sections ! i = new_record name d (time_time env (c + i))"
proof (induction sections arbitrary: c i)
  case Nil
  then show ?case by simp
next
  case (Cons sec rest)
  show ?case
  proof (cases sec)
    case (PyDict d)
    show ?thesis
    proof (cases i)
      case 0
      with PyDict show ?thesis by simp
    next
      case (Suc j)
      with Cons.prems PyDict have "j < length (records_of env name (Suc c) rest)" by simp
      from Cons.IH[OF this] Suc PyDict show ?thesis by simp
    qed
  qed (use Cons.prems in auto)
qed

lemma records_of_length:
  "\<forall>s \<in> set sections. is_dict s \<Longrightarrow> length (records_of env name c sections) = length sections"
  by (induction sections arbitrary: c) (auto simp: is_dict_def split: pyval.splits)

lemma records_of_append:
  "\<forall>s \<in> set a. is_dict s \<Longrightarrow>
     records_of env name c (a @ b) = records_of env name c a @ records_of env name (c + length a) b"
  by (induction a arbitrary: c) (auto simp: is_dict_def split: pyval.splits)

lemma records_of_not_dict: "\<not> is_dict x \<Longrightarrow> records_of env name c (x # rest) = []"
  by (cases x) (simp_all add: is_dict_def)

lemma insert_sections_accepted:
  assumes "\<forall>s \<in> set pre. is_dict s"
    and "\<forall>i < length pre.
           insert_one env (inserts w @ take i (records_of env name (clock w) pre))
             (records_of env name (clock w) pre ! i) = None"
  shows "insert_sections env name (pre @ rest) w =
     insert_sections env name rest
       (w\<lparr>clock := clock w + length pre,
          inserts := inserts w @ records_of env name (clock w) pre,
          collection := collection w @ records_of env name (clock w) pre\<rparr>)"
  using assms
proof (induction pre arbitrary: w)
  case Nil
  then show ?case by simp
next
  case (Cons sec pre)
  from Cons.prems(1) obtain d where sec: "sec = PyDict d" by (cases sec) (auto simp: is_dict_def)
  define doc where "doc = new_record name d (time_time env (clock w))"
  define w2 where "w2 = w\<lparr>clock := Suc (clock w), inserts := inserts w @ [doc],
    collection := collection w @ [doc]\<rparr>"
  have recs: "records_of env name (clock w) (sec # pre) = doc # records_of env name (Suc (clock w)) pre"
    by (simp add: sec doc_def)
  from Cons.prems(2)[rule_format, of 0] have first: "insert_one env (inserts w) doc = None"
    by (simp add: recs del: records_of.simps)
  have step: "insert_sections env name ((sec # pre) @ rest) w = insert_sections env name (pre @ rest) w2"
    using first by (simp add: sec doc_def w2_def Let_def)
  have dicts: "\<forall>s \<in> set pre. is_dict s" using Cons.prems(1) by simp
  have acc: "\<forall>i < length pre.
      insert_one env (inserts w2 @ take i (records_of env name (clock w2) pre))
        (records_of env name (clock w2) pre ! i) = None"
  proof (intro allI impI)
    fix i assume "i < length pre"
    then have "Suc i < length (sec # pre)" by simp
    from Cons.prems(2)[rule_format, OF this]
    show "insert_one env (inserts w2 @ take i (records_of env name (clock w2) pre))
        (records_of env name (clock w2) pre ! i) = None"
      by (simp add: recs w2_def del: records_of.simps)
  qed
  from Cons.IH[OF dicts acc] step show ?case
    by (simp add: recs w2_def del: records_of.simps)
qed

lemma is_dict_PyDict: "is_dict v \<Longrightarrow> \<exists>d. v = PyDict d"
  by (cases v) (simp_all add: is_dict_def)

lemma loop_parsed:
  "json_loads env (candidate_of raw) = Inr v \<Longrightarrow>
   retry_loop env N (attempt # attempts) raw w =
     (Break (case v of PyList xs \<Rightarrow> xs | _ \<Rightarrow> [v]), w)"
  by (simp add: Let_def)

text \<open>
  Claim C2, as amended. When the insert of the record at position \<open>k\<close> raises, after the inserts
  before it were accepted, the exception leaves \<open>process_text\<close>, the records before \<open>k\<close> stay in
  the collection (nothing is rolled back), and no insert after \<open>k\<close> is attempted.
\<close>

theorem insert_failure_stops:
  assumes dicts: "\<forall>s \<in> set sections. is_dict s"
    and R: "R = records_of env name (clock w) sections"
    and k: "k < length sections"
    and ok: "\<forall>i < k. insert_one env (inserts w @ take i R) (R ! i) = None"
    and fail: "insert_one env (inserts w @ take k R) (R ! k) = Some e"
  shows "fst (materialize env name (Break sections, w)) = Raised e \<and>
         inserts (snd (materialize env name (Break sections, w))) = inserts w @ take (Suc k) R \<and>
         collection (snd (materialize env name (Break sections, w))) = collection w @ take k R"
proof -
  define pre where "pre = take k sections"
  define rest where "rest = drop (Suc k) sections"
  from k have split: "sections = pre @ (sections ! k) # rest"
    by (simp add: pre_def rest_def id_take_nth_drop)
  from dicts k have "is_dict (sections ! k)" by simp
  then obtain d where d: "sections ! k = PyDict d" using is_dict_PyDict by blast
  have pd: "\<forall>s \<in> set pre. is_dict s" using dicts by (auto simp: pre_def dest: in_set_takeD)
  have lp: "length pre = k" using k by (simp add: pre_def)
  have lR: "length R = length sections" unfolding R using dicts by (rule records_of_length)
  have Rsplit: "R = records_of env name (clock w) pre @
      records_of env name (clock w + k) (sections ! k # rest)"
    unfolding R using records_of_append[OF pd, of env name "clock w" "sections ! k # rest"] split lp
    by simp
  have lpre: "length (records_of env name (clock w) pre) = k"
    using records_of_length[OF pd] lp by simp
  have Rpre: "records_of env name (clock w) pre = take k R"
    using Rsplit lpre by (metis append_eq_conv_conj)
  define doc where "doc = new_record name d (time_time env (clock w + k))"
  have Rk: "R ! k = doc"
    using Rsplit lpre by (simp add: nth_append d doc_def)
  have acc: "\<forall>i < length pre.
      insert_one env (inserts w @ take i (records_of env name (clock w) pre))
        (records_of env name (clock w) pre ! i) = None"
    using ok lp by (simp add: Rpre)
  define w1 where "w1 = w\<lparr>clock := clock w + length pre,
      inserts := inserts w @ records_of env name (clock w) pre,
      collection := collection w @ records_of env name (clock w) pre\<rparr>"
  have "insert_sections env name sections w = insert_sections env name (sections ! k # rest) w1"
    using insert_sections_accepted[OF pd acc, of "sections ! k # rest"] split by (simp add: w1_def)
  also have "\<dots> = (Some e, w1\<lparr>clock := Suc (clock w1), inserts := inserts w1 @ [doc]\<rparr>)"
    using fail by (simp add: d Let_def w1_def lp Rpre Rk doc_def)
  finally have run: "insert_sections env name sections w =
      (Some e, w1\<lparr>clock := Suc (clock w1), inserts := inserts w1 @ [doc]\<rparr>)" .
  have "take (Suc k) R = take k R @ [doc]"
    using lR k Rk by (simp add: take_Suc_conv_app_nth)
  then show ?thesis by (simp add: materialize_def run w1_def Rpre)
qed

text \<open>
  The claim as stated fails: the response parses as two sections, the store refuses the first
  insert, and the run ends with that exception after one insert, the second never attempted.
\<close>

theorem insert_failure_stops_counterexample:
  \<open>fst (process_text
      (scripted [''[{"title":"a"},{"title":"b"}]'']
         [(''[{"title":"a"},{"title":"b"}]'',
           PyList [PyDict [(''title'', PyStr ''a'')], PyDict [(''title'', PyStr ''b'')]])]
         [0])
      ''Intro. Body.'' ''note.txt'' 1 fresh) = Raised PyMongoError \<and>
   length (inserts (snd (process_text
      (scripted [''[{"title":"a"},{"title":"b"}]'']
         [(''[{"title":"a"},{"title":"b"}]'',
           PyList [PyDict [(''title'', PyStr ''a'')], PyDict [(''title'', PyStr ''b'')]])]
         [0])
      ''Intro. Body.'' ''note.txt'' 1 fresh))) = 1\<close>
  by code_simp

theorem insert_failure_stops_witness:
  "fst (materialize (scripted [] [] [1]) ''note.txt''
        (Break [PyDict [(''title'', PyStr ''a'')], PyDict [(''title'', PyStr ''b'')],
                PyDict [(''title'', PyStr ''c'')]], fresh)) = Raised PyMongoError \<and>
   length (inserts (snd (materialize (scripted [] [] [1]) ''note.txt''
        (Break [PyDict [(''title'', PyStr ''a'')], PyDict [(''title'', PyStr ''b'')],
                PyDict [(''title'', PyStr ''c'')]], fresh)))) = 2 \<and>
   length (collection (snd (materialize (scripted [] [] [1]) ''note.txt''
        (Break [PyDict [(''title'', PyStr ''a'')], PyDict [(''title'', PyStr ''b'')],
                PyDict [(''title'', PyStr ''c'')]], fresh)))) = 1"
proof -
  define S :: "nat pyval list" where "S = [PyDict [(''title'', PyStr ''a'')],
    PyDict [(''title'', PyStr ''b'')], PyDict [(''title'', PyStr ''c'')]]"
  define E where "E = scripted [] [] [1]"
  define R where "R = records_of E ''note.txt'' (clock fresh) S"
  have dicts: "\<forall>s \<in> set S. is_dict s" by (simp add: S_def is_dict_def)
  have k: "(1::nat) < length S" by (simp add: S_def)
  have lR: "length R = 3" by (simp add: R_def S_def)
  have ok: "\<forall>i < 1. insert_one E (inserts fresh @ take i R) (R ! i) = None"
    by (simp add: E_def scripted_def fresh_def)
  have fail: "insert_one E (inserts fresh @ take 1 R) (R ! 1) = Some PyMongoError"
    using lR by (simp add: E_def scripted_def fresh_def)
  from insert_failure_stops[OF dicts R_def k ok fail] lR
  show ?thesis unfolding S_def E_def by (simp add: fresh_def)
qed

subsection \<open>The sections up to the first that is not an object\<close>












text \<open>
  Claim C5. Array coercion: at any pass of the retry loop whose candidate parses as a bare JSON
  object, the loop ends with the one-element sequence of that object, no further call made, and
  the rest of \<open>process_text\<close> hands exactly one record to the store; when the store accepts it,
  the run ends with the count 1 and that one record added to the collection.
\<close>

theorem array_coercion:
  assumes "json_loads env (candidate_of raw) = Inr (PyDict d)"
    and "doc = new_record name d (time_time env (clock w))"
  shows "retry_loop env N (attempt # attempts) raw w = (Break [PyDict d], w) \<and>
         inserts (snd (materialize env name (retry_loop env N (attempt # attempts) raw w)))
           = inserts w @ [doc] \<and>
         (insert_one env (inserts w) doc = None \<longrightarrow>
            fst (materialize env name (retry_loop env N (attempt # attempts) raw w)) = Processed 1 \<and>
            collection (snd (materialize env name (retry_loop env N (attempt # attempts) raw w)))
              = collection w @ [doc])"
proof -
  have loop: "retry_loop env N (attempt # attempts) raw w = (Break [PyDict d], w)"
    using loop_parsed[OF assms(1)] by simp
  show ?thesis unfolding loop
    by (cases "insert_one env (inserts w) doc")
      (simp_all add: materialize_def Let_def assms(2))
qed

theorem array_coercion_witness:
  \<open>fst (materialize
     (scripted [''{"title":"T"}''] [(''{"title":"T"}'', PyDict [(''title'', PyStr ''T'')])] [])
     ''note.txt''
     (retry_loop
        (scripted [''{"title":"T"}''] [(''{"title":"T"}'', PyDict [(''title'', PyStr ''T'')])] [])
        1 [0, 1] ''{"title":"T"}'' fresh)) = Processed 1 \<and>
   inserts (snd (materialize
     (scripted [''{"title":"T"}''] [(''{"title":"T"}'', PyDict [(''title'', PyStr ''T'')])] [])
     ''note.txt''
     (retry_loop
        (scripted [''{"title":"T"}''] [(''{"title":"T"}'', PyDict [(''title'', PyStr ''T'')])] [])
        1 [0, 1] ''{"title":"T"}'' fresh)))
     = [\<lparr>filename = ''note.txt'', title = PyStr ''T'', summary = PyStr [],
         tags = PyList [], original = PyStr [], timestamp = 0\<rparr>] \<and>
   collection (snd (materialize
     (scripted [''{"title":"T"}''] [(''{"title":"T"}'', PyDict [(''title'', PyStr ''T'')])] [])
     ''note.txt''
     (retry_loop
        (scripted [''{"title":"T"}''] [(''{"title":"T"}'', PyDict [(''title'', PyStr ''T'')])] [])
        1 [0, 1] ''{"title":"T"}'' fresh)))
     = [\<lparr>filename = ''note.txt'', title = PyStr ''T'', summary = PyStr [],
         tags = PyList [], original = PyStr [], timestamp = 0\<rparr>]\<close>
proof -
  define E where
    \<open>E = scripted [''{"title":"T"}''] [(''{"title":"T"}'', PyDict [(''title'', PyStr ''T'')])] []\<close>
  define doc :: "nat document" where
    "doc = \<lparr>filename = ''note.txt'', title = PyStr ''T'', summary = PyStr [],
             tags = PyList [], original = PyStr [], timestamp = 0\<rparr>"
  have parse: \<open>json_loads E (candidate_of ''{"title":"T"}'') = Inr (PyDict [(''title'', PyStr ''T'')])\<close>
    unfolding E_def by code_simp
  have d: "doc = new_record ''note.txt'' [(''title'', PyStr ''T'')] (time_time E (clock fresh))"
    unfolding E_def doc_def by code_simp
  have acc: "insert_one E (inserts fresh) doc = None"
    by (simp add: E_def scripted_def fresh_def)
  have old: "inserts fresh = []" "collection fresh = []" by (simp_all add: fresh_def)
  from array_coercion[OF parse d, of 1 0 "[1]"] acc
  show ?thesis unfolding E_def[symmetric] doc_def[symmetric] old append_Nil
    by blast
qed

lemma process_text_loop:
  "0 \<le> N \<Longrightarrow> call_model env (prompt_text t) False w = (Inr raw, w1) \<Longrightarrow>
   process_text env t name N w = materialize env name (retry_loop env N (0 # [1..N]) raw w1)"
  by (simp add: process_text_def upto_rec1 del: retry_loop.simps)

text \<open>
  Claim C6. Defaulting: every document the materializer hands to the store is built from a
  section that is an object, carries the file name, and has the empty sequence for \<open>tags\<close> when
  the object has no \<open>tags\<close> field, and the empty string for \<open>title\<close>, \<open>summary\<close> and \<open>original\<close> when
  the object has no \<open>title\<close>, \<open>summary\<close> or \<open>content\<close> field.
\<close>

theorem defaulting:
  assumes "i < length (inserts (snd (insert_sections env name sections w))) - length (inserts w)"
    and "doc = inserts (snd (insert_sections env name sections w)) ! (length (inserts w) + i)"
  shows "\<exists>d. sections ! i = PyDict d \<and> filename doc = name \<and>
           (map_of d ''tags'' = None \<longrightarrow> tags doc = PyList []) \<and>
           (map_of d ''title'' = None \<longrightarrow> title doc = PyStr []) \<and>
           (map_of d ''summary'' = None \<longrightarrow> summary doc = PyStr []) \<and>
           (map_of d ''content'' = None \<longrightarrow> original doc = PyStr [])"
proof -
  obtain r w' where run: "insert_sections env name sections w = (r, w')"
    by (cases "insert_sections env name sections w") auto
  from insert_sections_run[OF run] obtain n where
    ins: "inserts w' = inserts w @ take n (records_of env name (clock w) sections)"
    and n: "n \<le> length (records_of env name (clock w) sections)"
    by blast
  from assms(1) run ins n have i: "i < n" by simp
  with n have il: "i < length (records_of env name (clock w) sections)" by simp
  from assms(2) run ins i have "doc = records_of env name (clock w) sections ! i"
    by (simp add: nth_append)
  with records_of_nth[OF il] obtain d where d: "sections ! i = PyDict d"
    and doc: "doc = new_record name d (time_time env (clock w + i))"
    by auto
  show ?thesis
    by (rule exI[of _ d]) (simp add: d doc new_record_def dict_get_def)
qed

theorem defaulting_witness:
  "tags (inserts (snd (insert_sections (scripted [] [] []) ''note.txt''
      [PyDict [(''content'', PyStr ''Intro.'')]] fresh)) ! 0) = PyList [] \<and>
   title (inserts (snd (insert_sections (scripted [] [] []) ''note.txt''
      [PyDict [(''content'', PyStr ''Intro.'')]] fresh)) ! 0) = PyStr [] \<and>
   summary (inserts (snd (insert_sections (scripted [] [] []) ''note.txt''
      [PyDict [(''content'', PyStr ''Intro.'')]] fresh)) ! 0) = PyStr []"
proof -
  define S :: "nat pyval list" where "S = [PyDict [(''content'', PyStr ''Intro.'')]]"
  define W where "W = snd (insert_sections (scripted [] [] []) ''note.txt'' S fresh)"
  have len: "length (inserts W) = 1" unfolding W_def S_def by code_simp
  have old: "length (inserts fresh) = 0" by (simp add: fresh_def)
  from len old have i: "0 < length (inserts W) - length (inserts fresh)" by simp
  have at: "inserts W ! 0 = inserts W ! (length (inserts fresh) + 0)" using old by simp
  from defaulting[OF i[unfolded W_def] at[unfolded W_def]]
  show ?thesis unfolding S_def by auto
qed

text \<open>
  Claim C9. At any pass of the retry loop whose candidate parses as an array with an element
  that is not an object, the objects before it accepted by the store, the rest of
  \<open>process_text\<close> raises \<open>AttributeError\<close> at that element with the records of the objects before
  it already in the collection: fewer records than the array has elements.
\<close>

theorem ill_shaped_prefix:
  assumes parse: "json_loads env (candidate_of raw) = Inr (PyList (pre @ x # rest))"
    and dicts: "\<forall>s \<in> set pre. is_dict s" and x: "\<not> is_dict x"
    and R: "R = records_of env name (clock w) pre"
    and acc: "\<forall>i < length pre. insert_one env (inserts w @ take i R) (R ! i) = None"
  shows "fst (materialize env name (retry_loop env N (attempt # attempts) raw w))
           = Raised AttributeError \<and>
         collection (snd (materialize env name (retry_loop env N (attempt # attempts) raw w)))
           = collection w @ R \<and>
         length R = length pre \<and> length pre < length (pre @ x # rest)"
proof -
  have loop: "retry_loop env N (attempt # attempts) raw w = (Break (pre @ x # rest), w)"
    using loop_parsed[OF parse] by simp
  define w1 where "w1 = w\<lparr>clock := clock w + length pre, inserts := inserts w @ R,
    collection := collection w @ R\<rparr>"
  have "insert_sections env name (pre @ x # rest) w = insert_sections env name (x # rest) w1"
    using insert_sections_accepted[OF dicts acc[unfolded R]] by (simp add: w1_def R)
  also have "\<dots> = (Some AttributeError, w1)"
    using x by (cases x) (simp_all add: is_dict_def)
  finally have run: "insert_sections env name (pre @ x # rest) w = (Some AttributeError, w1)" .
  have "length R = length pre" unfolding R using dicts by (rule records_of_length)
  then show ?thesis unfolding loop by (simp add: materialize_def run w1_def)
qed

theorem ill_shaped_prefix_witness:
  \<open>fst (materialize
     (scripted [] [(''[{"title":"a"},7,{"title":"b"}]'',
        PyList [PyDict [(''title'', PyStr ''a'')], PyInt 7, PyDict [(''title'', PyStr ''b'')]])] [])
     ''note.txt''
     (retry_loop
        (scripted [] [(''[{"title":"a"},7,{"title":"b"}]'',
           PyList [PyDict [(''title'', PyStr ''a'')], PyInt 7, PyDict [(''title'', PyStr ''b'')]])] [])
        1 [0, 1] ''[{"title":"a"},7,{"title":"b"}]'' fresh)) = Raised AttributeError \<and>
   collection (snd (materialize
     (scripted [] [(''[{"title":"a"},7,{"title":"b"}]'',
        PyList [PyDict [(''title'', PyStr ''a'')], PyInt 7, PyDict [(''title'', PyStr ''b'')]])] [])
     ''note.txt''
     (retry_loop
        (scripted [] [(''[{"title":"a"},7,{"title":"b"}]'',
           PyList [PyDict [(''title'', PyStr ''a'')], PyInt 7, PyDict [(''title'', PyStr ''b'')]])] [])
        1 [0, 1] ''[{"title":"a"},7,{"title":"b"}]'' fresh)))
     = [\<lparr>filename = ''note.txt'', title = PyStr ''a'', summary = PyStr [],
         tags = PyList [], original = PyStr [], timestamp = 0\<rparr>]\<close>
proof -
  define E where \<open>E = scripted [] [(''[{"title":"a"},7,{"title":"b"}]'',
        PyList [PyDict [(''title'', PyStr ''a'')], PyInt 7, PyDict [(''title'', PyStr ''b'')]])] []\<close>
  define R :: "nat document list" where
    "R = [\<lparr>filename = ''note.txt'', title = PyStr ''a'', summary = PyStr [],
         tags = PyList [], original = PyStr [], timestamp = 0\<rparr>]"
  have parse: \<open>json_loads E (candidate_of ''[{"title":"a"},7,{"title":"b"}]'')
      = Inr (PyList ([PyDict [(''title'', PyStr ''a'')]] @ PyInt 7 # [PyDict [(''title'', PyStr ''b'')]]))\<close>
    unfolding E_def by code_simp
  have dicts: "\<forall>s \<in> set [PyDict [(''title'', PyStr ''a'')] :: nat pyval]. is_dict s"
    by (simp add: is_dict_def)
  have x: "\<not> is_dict (PyInt 7 :: nat pyval)" by (simp add: is_dict_def)
  have Rdef: "R = records_of E ''note.txt'' (clock fresh) [PyDict [(''title'', PyStr ''a'')]]"
    unfolding E_def R_def by code_simp
  have acc: "\<forall>i < length [PyDict [(''title'', PyStr ''a'')] :: nat pyval].
      insert_one E (inserts fresh @ take i R) (R ! i) = None"
    by (simp add: E_def scripted_def)
  have old: "collection fresh = []" by (simp add: fresh_def)
  from ill_shaped_prefix[OF parse dicts x Rdef acc, of 1 0 "[1]"]
  show ?thesis unfolding E_def[symmetric] R_def[symmetric] old append_Nil by blast
qed

end
